theory Spec2Isabelle
  imports Main "HOL-Library.FSet"
begin

section \<open>Clauses and formulas (dpll\_sat.py)\<close>

text \<open>
  A literal is a Python \<open>int\<close>. The class \<open>Clause\<close> has the single field
  \<open>literals\<close>, a Python set of literals; two clauses are equal exactly when their
  literal sets are (\<open>__eq__\<close>, \<open>__hash__\<close>), which is the equality of the datatype.
  Python sets are finite, so they are finite sets here.
\<close>

datatype clause = Clause (literals: "int fset")

definition len :: "clause \<Rightarrow> nat" where
  "len c = fcard (literals c)"

definition dupe :: "clause \<Rightarrow> clause" where
  "dupe c = Clause (literals c)"

definition remove :: "clause \<Rightarrow> int \<Rightarrow> clause" where
  "remove c literal = Clause (literals c |-| {|literal|})"

text \<open>
  The class \<open>CNF\<close>: the set of clauses and the two counts, which are metadata
  that no method reads after construction.
\<close>

record cnf =
  clauses :: "clause fset"
  num_literals :: int
  num_clauses :: int

definition get_literals :: "cnf \<Rightarrow> int fset" where
  "get_literals F = ffUnion (literals |`| clauses F)"

text \<open>
  \<open>CNF.__init__\<close>: the clause list becomes a set; a count that is not given is
  taken from the clauses.
\<close>

definition CNF :: "clause list \<Rightarrow> int option \<Rightarrow> int option \<Rightarrow> cnf" where
  "CNF cs nl nc =
     (let self = \<lparr>clauses = fset_of_list cs, num_literals = 0, num_clauses = 0\<rparr>;
          self = self\<lparr>num_literals :=
                   (case nl of Some n \<Rightarrow> n | None \<Rightarrow> int (fcard (get_literals self)))\<rparr>
      in self\<lparr>num_clauses :=
                   (case nc of Some n \<Rightarrow> n | None \<Rightarrow> int (fcard (clauses self)))\<rparr>)"

text \<open>
  \<open>add_literal\<close> copies every clause into a list, appends the unit clause and
  hands the list to the constructor, which makes a set of it again: the order
  of the list is lost, so the model builds the set directly.
\<close>

definition add_literal :: "cnf \<Rightarrow> int \<Rightarrow> cnf" where
  "add_literal F literal =
     (let new_clauses = finsert (Clause {|literal|}) (dupe |`| clauses F);
          self = \<lparr>clauses = new_clauses, num_literals = 0, num_clauses = 0\<rparr>
      in self\<lparr>num_literals := int (fcard (get_literals self)),
              num_clauses := int (fcard new_clauses)\<rparr>)"

definition is_sat :: "cnf \<Rightarrow> bool" where
  "is_sat F = (fcard (clauses F) = 0)"

definition is_unsat :: "cnf \<Rightarrow> bool" where
  "is_unsat F = fBex (clauses F) (\<lambda>c. len c = 0)"

section \<open>The simplification rules\<close>

text \<open>
  \<open>apply_pure\<close> mutates \<open>self.clauses\<close> and returns a flag; the model returns
  the flag and the formula after the call.
\<close>

definition apply_pure :: "cnf \<Rightarrow> bool \<times> cnf" where
  "apply_pure F =
     (let all_literals = get_literals F;
          pure_set = ffilter (\<lambda>l. - l |\<notin>| all_literals) all_literals
      in if pure_set = {||} then (False, F)
         else
           let clauses_to_keep = ffilter (\<lambda>c. literals c |\<inter>| pure_set = {||}) (clauses F);
               removed_count = fcard (ffilter (\<lambda>c. literals c |\<inter>| pure_set \<noteq> {||}) (clauses F))
           in (removed_count > 0, F\<lparr>clauses := clauses_to_keep\<rparr>))"

text \<open>
  Two places take one element of a set where the contents of the set do not say
  which: \<open>unit_clauses[0]\<close> is the first unit clause in the iteration order of a
  Python set, and \<open>apply_split\<close> calls \<open>random.choice\<close>. The model reads each such
  position from an oracle, a list of numbers used up from the left (an empty
  oracle answers 0). Every number picks an element of a set that is not empty
  and every element is picked by some number, so that a statement for every
  oracle is a statement about every run.
\<close>

type_synonym choices = "nat list"

fun draw :: "choices \<Rightarrow> nat \<times> choices" where
  "draw [] = (0, [])"
| "draw (r # rs) = (r, rs)"

definition pick :: "int fset \<Rightarrow> nat \<Rightarrow> int" where
  "pick S r = sorted_list_of_fset S ! (r mod fcard S)"

text \<open>
  The body of the \<open>for\<close> loop of \<open>apply_unit\<close>, as the clauses one iteration adds
  to \<open>new_clauses\<close>.
\<close>

definition unit_step :: "int \<Rightarrow> clause \<Rightarrow> clause \<Rightarrow> clause fset" where
  "unit_step unit_literal first other_clause =
     (if other_clause = first then {||}
      else if unit_literal |\<in>| literals other_clause then {||}
      else if - unit_literal |\<in>| literals other_clause
        then {|remove (dupe other_clause) (- unit_literal)|}
      else {|other_clause|})"

definition unit_clauses :: "cnf \<Rightarrow> clause fset" where
  "unit_clauses F = ffilter (\<lambda>c. len c = 1) (clauses F)"

definition apply_unit :: "cnf \<Rightarrow> choices \<Rightarrow> (bool \<times> cnf) \<times> choices" where
  "apply_unit F rs =
     (if unit_clauses F = {||} then ((False, F), rs)
      else
        let (r, rs') = draw rs;
            unit_literal = pick ((\<lambda>c. fthe_elem (literals c)) |`| unit_clauses F) r;
            first = Clause {|unit_literal|};
            new_clauses = ffUnion (unit_step unit_literal first |`| clauses F)
        in ((True, F\<lparr>clauses := new_clauses\<rparr>), rs'))"

lemma pick_mem: "S \<noteq> {||} \<Longrightarrow> pick S r |\<in>| S"
proof -
  assume ne: "S \<noteq> {||}"
  have "length (sorted_list_of_fset S) = fcard S"
    by (simp add: sorted_list_of_fset.rep_eq fcard.rep_eq)
  moreover have "fcard S > 0" using ne by (cases "fcard S") auto
  ultimately have "sorted_list_of_fset S ! (r mod fcard S) \<in> set (sorted_list_of_fset S)"
    by (intro nth_mem) simp
  thus ?thesis by (simp add: pick_def)
qed

lemma pick_any: "x |\<in>| S \<Longrightarrow> \<exists>r. pick S r = x"
proof -
  assume x: "x |\<in>| S"
  have len: "length (sorted_list_of_fset S) = fcard S"
    by (simp add: sorted_list_of_fset.rep_eq fcard.rep_eq)
  from x have "x \<in> set (sorted_list_of_fset S)" by simp
  then have "\<exists>i < length (sorted_list_of_fset S). sorted_list_of_fset S ! i = x"
    by (simp only: in_set_conv_nth)
  then obtain i where i: "i < length (sorted_list_of_fset S)" "sorted_list_of_fset S ! i = x"
    by blast
  with len have "pick S i = x" by (simp add: pick_def)
  then show ?thesis ..
qed

lemma len_one_iff: "len c = 1 \<longleftrightarrow> (\<exists>u. c = Clause {|u|})"
proof
  assume "len c = 1"
  then have "card (fset (literals c)) = 1" by (simp add: len_def fcard.rep_eq)
  then obtain u where "fset (literals c) = {u}" by (auto simp: card_1_singleton_iff)
  then have "literals c = {|u|}" by (metis bot_fset.rep_eq finsert.rep_eq fset_inject)
  then show "\<exists>u. c = Clause {|u|}" by (cases c) auto
next
  assume "\<exists>u. c = Clause {|u|}"
  then show "len c = 1" by (auto simp: len_def fcard.rep_eq)
qed

lemma len_zero_iff: "len c = 0 \<longleftrightarrow> c = Clause {||}"
  by (cases c) (auto simp: len_def)

lemma unit_clauses_iff: "c |\<in>| unit_clauses F \<longleftrightarrow> c |\<in>| clauses F \<and> (\<exists>u. c = Clause {|u|})"
  using len_one_iff [of c] by (auto simp: unit_clauses_def)

lemma unit_literal_mem:
  assumes "unit_clauses F \<noteq> {||}"
  shows "Clause {|pick ((\<lambda>c. fthe_elem (literals c)) |`| unit_clauses F) r|} |\<in>| clauses F"
proof -
  let ?U = "(\<lambda>c. fthe_elem (literals c)) |`| unit_clauses F"
  have "?U \<noteq> {||}" using assms by auto
  then have "pick ?U r |\<in>| ?U" by (rule pick_mem)
  then obtain c where c: "c |\<in>| unit_clauses F" and p: "pick ?U r = fthe_elem (literals c)"
    by auto
  from c obtain u where u: "c = Clause {|u|}" and cF: "c |\<in>| clauses F"
    by (auto simp: unit_clauses_iff)
  from p u have "pick ?U r = u" by simp
  with u cF show ?thesis by simp
qed

text \<open>
  What the loop of \<open>apply_unit\<close> builds for the unit literal \<open>u\<close>: the clauses
  without \<open>u\<close>, each with \<open>- u\<close> taken out.
\<close>

definition propagated :: "int \<Rightarrow> clause fset \<Rightarrow> clause fset" where
  "propagated u cs = (\<lambda>c. Clause (literals c |-| {|- u|})) |`| ffilter (\<lambda>c. u |\<notin>| literals c) cs"

lemma unit_step_eq:
  "unit_step u (Clause {|u|}) c =
     (if u |\<in>| literals c then {||} else {|Clause (literals c |-| {|- u|})|})"
  by (cases c) (auto simp: unit_step_def remove_def dupe_def)

lemma new_clauses_eq: "ffUnion (unit_step u (Clause {|u|}) |`| cs) = propagated u cs"
  by (induction cs) (auto simp: unit_step_eq propagated_def)

lemma apply_unit_cases:
  "(unit_clauses F = {||} \<and> apply_unit F rs = ((False, F), rs)) \<or>
   (\<exists>u. Clause {|u|} |\<in>| clauses F \<and>
        apply_unit F rs = ((True, F\<lparr>clauses := propagated u (clauses F)\<rparr>), snd (draw rs)))"
proof (cases "unit_clauses F = {||}")
  case True
  then show ?thesis by (simp add: apply_unit_def)
next
  case False
  let ?u = "pick ((\<lambda>c. fthe_elem (literals c)) |`| unit_clauses F) (fst (draw rs))"
  have "Clause {|?u|} |\<in>| clauses F" using False by (rule unit_literal_mem)
  moreover have "apply_unit F rs = ((True, F\<lparr>clauses := propagated ?u (clauses F)\<rparr>), snd (draw rs))"
    using False by (simp add: apply_unit_def new_clauses_eq split: prod.splits)
  ultimately show ?thesis by blast
qed

section \<open>The decision procedure\<close>

text \<open>The variables of a formula: the absolute values of its literals.\<close>

definition variables :: "cnf \<Rightarrow> nat fset" where
  "variables F = (\<lambda>l. nat \<bar>l\<bar>) |`| get_literals F"

text \<open>
  The first \<open>while\<close> loop of \<open>dpll\<close>; \<open>None\<close> is the \<open>return False\<close> inside it.
\<close>

function unit_loop :: "cnf \<Rightarrow> choices \<Rightarrow> cnf option \<times> choices" where
  "unit_loop F rs =
     (case apply_unit F rs of
        ((True, F'), rs') \<Rightarrow> if is_unsat F' then (None, rs') else unit_loop F' rs'
      | ((False, F'), rs') \<Rightarrow> (Some F', rs'))"
  by pat_completeness auto

lemma fcard_propagated: "Clause {|u|} |\<in>| cs \<Longrightarrow> fcard (propagated u cs) < fcard cs"
proof -
  assume u: "Clause {|u|} |\<in>| cs"
  have "ffilter (\<lambda>c. u |\<notin>| literals c) cs |\<subseteq>| cs |-| {|Clause {|u|}|}" by auto
  then have "fcard (ffilter (\<lambda>c. u |\<notin>| literals c) cs) \<le> fcard (cs |-| {|Clause {|u|}|})"
    by (rule fcard_mono)
  also have "\<dots> < fcard cs" using u by (rule fcard_fminus1_less)
  finally have "fcard (ffilter (\<lambda>c. u |\<notin>| literals c) cs) < fcard cs" .
  moreover have "fcard (propagated u cs) \<le> fcard (ffilter (\<lambda>c. u |\<notin>| literals c) cs)"
    unfolding propagated_def by (simp add: fcard.rep_eq card_image_le)
  ultimately show ?thesis by simp
qed

lemma apply_unit_fcard:
  "apply_unit F rs = ((True, F'), rs') \<Longrightarrow> fcard (clauses F') < fcard (clauses F)"
  using apply_unit_cases [of F rs] by (auto simp: fcard_propagated)

termination unit_loop
  by (relation "measure (\<lambda>(F, rs). fcard (clauses F))") (auto simp: apply_unit_fcard [OF sym])

declare unit_loop.simps [simp del]

text \<open>The second \<open>while\<close> loop of \<open>dpll\<close>.\<close>

function pure_loop :: "cnf \<Rightarrow> cnf" where
  "pure_loop F = (case apply_pure F of (True, F') \<Rightarrow> pure_loop F' | (False, F') \<Rightarrow> F')"
  by pat_completeness auto

lemma apply_pure_fcard:
  "apply_pure F = (True, F') \<Longrightarrow> fcard (clauses F') < fcard (clauses F)"
proof -
  assume a: "apply_pure F = (True, F')"
  define P where "P = ffilter (\<lambda>l. - l |\<notin>| get_literals F) (get_literals F)"
  from a have ne: "ffilter (\<lambda>c. literals c |\<inter>| P \<noteq> {||}) (clauses F) \<noteq> {||}"
    and F': "clauses F' = ffilter (\<lambda>c. literals c |\<inter>| P = {||}) (clauses F)"
    by (auto simp: apply_pure_def Let_def P_def fcard_fempty split: if_splits)
  from ne obtain c where c: "c |\<in>| clauses F" "literals c |\<inter>| P \<noteq> {||}" by fastforce
  then have "clauses F' |\<subseteq>| clauses F |-| {|c|}" unfolding F' by auto
  then have "fcard (clauses F') \<le> fcard (clauses F |-| {|c|})" by (rule fcard_mono)
  also have "\<dots> < fcard (clauses F)" using c(1) by (rule fcard_fminus1_less)
  finally show ?thesis .
qed

termination pure_loop
  by (relation "measure (\<lambda>F. fcard (clauses F))") (auto simp: apply_pure_fcard [OF sym])

declare pure_loop.simps [simp del]

lemma get_literals_iff: "l |\<in>| get_literals F \<longleftrightarrow> (\<exists>c. c |\<in>| clauses F \<and> l |\<in>| literals c)"
  by (auto simp: get_literals_def ffUnion.rep_eq)

lemma variables_iff: "x |\<in>| variables F \<longleftrightarrow> (\<exists>c l. c |\<in>| clauses F \<and> l |\<in>| literals c \<and> x = nat \<bar>l\<bar>)"
proof -
  have "x |\<in>| variables F \<longleftrightarrow> (\<exists>l. l |\<in>| get_literals F \<and> x = nat \<bar>l\<bar>)"
    by (auto simp: variables_def)
  then show ?thesis unfolding get_literals_iff by blast
qed

lemma propagated_iff:
  "c |\<in>| propagated u cs \<longleftrightarrow> (\<exists>d. d |\<in>| cs \<and> u |\<notin>| literals d \<and> c = Clause (literals d |-| {|- u|}))"
  by (auto simp: propagated_def)

lemma variables_mono: "clauses F |\<subseteq>| clauses G \<Longrightarrow> variables F |\<subseteq>| variables G"
proof
  fix x assume "clauses F |\<subseteq>| clauses G" "x |\<in>| variables F"
  then show "x |\<in>| variables G" unfolding variables_iff by blast
qed

lemma variables_propagated:
  assumes "Clause {|u|} |\<in>| clauses F"
  shows "variables (F\<lparr>clauses := propagated u (clauses F)\<rparr>) |\<subseteq>| variables F |-| {|nat \<bar>u\<bar>|}"
proof
  fix x assume "x |\<in>| variables (F\<lparr>clauses := propagated u (clauses F)\<rparr>)"
  then obtain d l where d: "d |\<in>| clauses F" "u |\<notin>| literals d"
    and l: "l |\<in>| literals d" "l \<noteq> - u" and x: "x = nat \<bar>l\<bar>"
    by (auto simp: variables_iff propagated_iff)
  from d l have "l \<noteq> u" by auto
  with l have "nat \<bar>l\<bar> \<noteq> nat \<bar>u\<bar>" by arith
  moreover from d l have "nat \<bar>l\<bar> |\<in>| variables F" by (auto simp: variables_iff)
  ultimately show "x |\<in>| variables F |-| {|nat \<bar>u\<bar>|}" using x by simp
qed

lemma apply_unit_variables:
  assumes "apply_unit F rs = ((True, F'), rs')"
  shows "fcard (variables F') < fcard (variables F)"
proof -
  from assms apply_unit_cases [of F rs] obtain u where u: "Clause {|u|} |\<in>| clauses F"
    and F': "F' = F\<lparr>clauses := propagated u (clauses F)\<rparr>" by auto
  have "nat \<bar>u\<bar> |\<in>| variables F" using u by (auto simp: variables_iff)
  then have "fcard (variables F |-| {|nat \<bar>u\<bar>|}) < fcard (variables F)"
    by (rule fcard_fminus1_less)
  moreover have "fcard (variables F') \<le> fcard (variables F |-| {|nat \<bar>u\<bar>|})"
    unfolding F' using u by (intro fcard_mono variables_propagated)
  ultimately show ?thesis by simp
qed

lemma apply_unit_False: "apply_unit F rs = ((False, F'), rs') \<Longrightarrow> unit_clauses F = {||} \<and> F' = F \<and> rs' = rs"
  using apply_unit_cases [of F rs] by auto

lemma unit_loop_Some:
  "unit_loop F rs = (Some F1, rs1) \<Longrightarrow>
     unit_clauses F1 = {||} \<and> fcard (variables F1) \<le> fcard (variables F) \<and>
     (unit_clauses F \<noteq> {||} \<longrightarrow> fcard (variables F1) < fcard (variables F))"
proof (induction F rs rule: unit_loop.induct)
  case (1 F rs)
  obtain b F' rs' where a: "apply_unit F rs = ((b, F'), rs')" by (metis surj_pair)
  show ?case
  proof (cases b)
    case False
    with a "1.prems" show ?thesis
      by (auto simp: unit_loop.simps [of F rs] dest: apply_unit_False)
  next
    case True
    with a "1.prems" have nu: "\<not> is_unsat F'" and r: "unit_loop F' rs' = (Some F1, rs1)"
      by (auto simp: unit_loop.simps [of F rs] split: if_splits)
    from "1.IH" [OF a [symmetric] refl eqTrueI [OF True] nu r]
    have "unit_clauses F1 = {||}" "fcard (variables F1) \<le> fcard (variables F')" by auto
    moreover have "fcard (variables F') < fcard (variables F)"
      using a True by (auto dest: apply_unit_variables)
    ultimately show ?thesis by auto
  qed
qed

lemma pure_loop_subset: "clauses (pure_loop F) |\<subseteq>| clauses F"
proof (induction F rule: pure_loop.induct)
  case (1 F)
  obtain b F' where a: "apply_pure F = (b, F')" by (metis surj_pair)
  have sub: "clauses F' |\<subseteq>| clauses F"
    using a by (auto simp: apply_pure_def Let_def split: if_splits)
  show ?case
  proof (cases b)
    case True
    from "1.IH" [OF a [symmetric] eqTrueI [OF True]]
    have "clauses (pure_loop F') |\<subseteq>| clauses F'" .
    with sub a True show ?thesis by (auto simp: pure_loop.simps [of F])
  next
    case False
    with sub a show ?thesis by (auto simp: pure_loop.simps [of F])
  qed
qed

lemma clauses_add_literal: "clauses (add_literal F l) = finsert (Clause {|l|}) (clauses F)"
proof -
  have "dupe |`| clauses F = clauses F"
    by (auto simp: dupe_def fimage_iff intro!: bexI [where x = "_ :: clause"])
  then show ?thesis by (simp add: add_literal_def Let_def)
qed

lemma variables_add_literal:
  "variables (add_literal F l) = finsert (nat \<bar>l\<bar>) (variables F)"
proof -
  have "get_literals (add_literal F l) = finsert l (get_literals F)"
    by (simp add: get_literals_def clauses_add_literal)
  then show ?thesis by (simp add: variables_def)
qed

lemma unit_clauses_add_literal: "unit_clauses (add_literal F l) \<noteq> {||}"
proof -
  have "Clause {|l|} |\<in>| unit_clauses (add_literal F l)"
    by (auto simp: unit_clauses_iff clauses_add_literal)
  then show ?thesis by auto
qed

text \<open>
  \<open>dpll\<close> and \<open>apply_split\<close> call each other. The \<open>or\<close> of \<open>apply_split\<close> does
  not run the second branch when the first returns \<open>True\<close>.
\<close>

function dpll :: "cnf \<Rightarrow> choices \<Rightarrow> bool \<times> choices"
  and apply_split :: "cnf \<Rightarrow> choices \<Rightarrow> bool \<times> choices" where
  "dpll F rs =
     (case unit_loop F rs of
        (None, rs1) \<Rightarrow> (False, rs1)
      | (Some F1, rs1) \<Rightarrow>
          let F2 = pure_loop F1 in
          if is_sat F2 then (True, rs1)
          else if is_unsat F2 then (False, rs1)
          else apply_split F2 rs1)"
| "apply_split F rs =
     (let literals = get_literals F in
      if literals = {||} then (False, rs)
      else
        let (r, rs1) = draw rs;
            split_literal = pick literals r;
            (b, rs2) = dpll (add_literal F split_literal) rs1
        in if b then (True, rs2) else dpll (add_literal F (- split_literal)) rs2)"
  by pat_completeness auto

termination
proof (relation "measure (\<lambda>x. case x of
           Inl (F, rs) \<Rightarrow> 3 * fcard (variables F) + (if unit_clauses F = {||} then 2 else 0)
         | Inr (F, rs) \<Rightarrow> 3 * fcard (variables F) + 1)", goal_cases)
  case 1
  show ?case by simp
next
  case (2 F rs x y F1 F2)
  from 2(1) have "unit_loop F rs = (Some F1, y)" using 2 by simp
  from unit_loop_Some [OF this]
  have a: "fcard (variables F1) \<le> fcard (variables F)"
    and b: "unit_clauses F \<noteq> {||} \<Longrightarrow> fcard (variables F1) < fcard (variables F)" by auto
  have "fcard (variables F2) \<le> fcard (variables F1)"
    unfolding 2 by (intro fcard_mono variables_mono pure_loop_subset)
  with a b show ?case by (cases "unit_clauses F = {||}") auto
next
  case (3 F rs lits p r rs1 l)
  have "nat \<bar>l\<bar> |\<in>| variables F"
    using pick_mem [OF 3(2), of r] unfolding 3 by (auto simp: variables_def)
  then have "variables (add_literal F l) = variables F"
    by (auto simp: variables_add_literal)
  then show ?case using unit_clauses_add_literal [of F l] by (simp add: 3)
next
  case (4 F rs lits p r rs1 l)
  have "nat \<bar>l\<bar> |\<in>| variables F"
    using pick_mem [OF 4(2), of r] unfolding 4 by (auto simp: variables_def)
  then have "variables (add_literal F (- l)) = variables F"
    by (auto simp: variables_add_literal)
  then show ?case using unit_clauses_add_literal [of F "- l"] by (simp add: 4)
qed

declare dpll.simps [simp del] apply_split.simps [simp del]

text \<open>
  \<open>dpll\<close> with a bound on the depth of the nested calls: \<open>dpll_depth n\<close> runs as
  \<open>dpll\<close> does and answers \<open>None\<close> where \<open>dpll\<close> would need more than \<open>n\<close> nested
  calls.
\<close>

fun dpll_depth :: "nat \<Rightarrow> cnf \<Rightarrow> choices \<Rightarrow> (bool \<times> choices) option"
  and apply_split_depth :: "nat \<Rightarrow> cnf \<Rightarrow> choices \<Rightarrow> (bool \<times> choices) option" where
  "dpll_depth 0 F rs = None"
| "dpll_depth (Suc n) F rs =
     (case unit_loop F rs of
        (None, rs1) \<Rightarrow> Some (False, rs1)
      | (Some F1, rs1) \<Rightarrow>
          let F2 = pure_loop F1 in
          if is_sat F2 then Some (True, rs1)
          else if is_unsat F2 then Some (False, rs1)
          else apply_split_depth n F2 rs1)"
| "apply_split_depth n F rs =
     (let literals = get_literals F in
      if literals = {||} then Some (False, rs)
      else
        let (r, rs1) = draw rs;
            split_literal = pick literals r
        in case dpll_depth n (add_literal F split_literal) rs1 of
             None \<Rightarrow> None
           | Some (b, rs2) \<Rightarrow>
               if b then Some (True, rs2) else dpll_depth n (add_literal F (- split_literal)) rs2)"

section \<open>Satisfiability\<close>

text \<open>
  A valuation gives every variable a truth value. The code negates a literal
  with unary minus, so the literal 0 is its own negation: unit propagation on 0
  deletes the clauses that contain 0 and never takes 0 out of a clause. The
  procedure therefore treats 0 as a literal that holds, which is what
  \<open>holds0\<close> records; on formulas without the literal 0 this is the usual
  semantics.
\<close>

definition holds0 :: "(nat \<Rightarrow> bool) \<Rightarrow> int \<Rightarrow> bool" where
  "holds0 v l = (l = 0 \<or> (0 < l \<and> v (nat l)) \<or> (l < 0 \<and> \<not> v (nat (- l))))"

definition models0 :: "(nat \<Rightarrow> bool) \<Rightarrow> cnf \<Rightarrow> bool" where
  "models0 v F = (\<forall>c. c |\<in>| clauses F \<longrightarrow> (\<exists>l. l |\<in>| literals c \<and> holds0 v l))"

definition sat0 :: "cnf \<Rightarrow> bool" where
  "sat0 F = (\<exists>v. models0 v F)"

text \<open>
  The usual reading of a formula: a positive literal \<open>l\<close> is the variable \<open>l\<close>, a
  negative one the negation of the variable \<open>- l\<close>, and a formula is satisfiable
  when one valuation makes some literal of every clause true.
\<close>

definition satisfiable :: "cnf \<Rightarrow> bool" where
  "satisfiable F =
     (\<exists>v :: nat \<Rightarrow> bool. \<forall>c. c |\<in>| clauses F \<longrightarrow>
        (\<exists>l. l |\<in>| literals c \<and> ((0 < l \<and> v (nat l)) \<or> (l < 0 \<and> \<not> v (nat (- l))))))"

text \<open>
  The pure literals of a formula: the literals whose negation occurs in no clause.
\<close>

definition pure_literals :: "cnf \<Rightarrow> int fset" where
  "pure_literals F = ffilter (\<lambda>l. - l |\<notin>| get_literals F) (get_literals F)"

section \<open>Objects and copies\<close>

text \<open>
  Whether two formulas share \<open>Clause\<close> objects cannot be seen in the model
  above, where a formula is a value. This section models the objects: a store
  of \<open>Clause\<close> objects (the \<open>literals\<close> of each) and a store of \<open>CNF\<close> objects,
  whose \<open>clauses\<close> field holds references to \<open>Clause\<close> objects; a reference is
  an index into its store and a new object goes to the end. The Python set of
  \<open>self.clauses\<close> is a list of references whose contents differ, in iteration
  order.
\<close>

type_synonym ref = nat

record cnf_obj =
  clause_refs :: "ref list"
  obj_num_literals :: int
  obj_num_clauses :: int

record heap =
  clause_objs :: "int fset list"
  cnf_objs :: "cnf_obj list"

text \<open>\<open>Clause.__init__\<close>, \<open>Clause.dupe\<close> and \<open>Clause.remove\<close> on objects.\<close>

definition new_Clause :: "heap \<Rightarrow> int fset \<Rightarrow> heap \<times> ref" where
  "new_Clause h ls = (h\<lparr>clause_objs := clause_objs h @ [ls]\<rparr>, length (clause_objs h))"

definition dupe_obj :: "heap \<Rightarrow> ref \<Rightarrow> heap \<times> ref" where
  "dupe_obj h c = new_Clause h (clause_objs h ! c)"

definition remove_obj :: "heap \<Rightarrow> ref \<Rightarrow> int \<Rightarrow> heap" where
  "remove_obj h c literal =
     h\<lparr>clause_objs := (clause_objs h)[c := clause_objs h ! c |-| {|literal|}]\<rparr>"

text \<open>The list comprehension \<open>[c.dupe() for c in self.clauses]\<close>.\<close>

fun dupe_each :: "heap \<Rightarrow> ref list \<Rightarrow> heap \<times> ref list" where
  "dupe_each h [] = (h, [])"
| "dupe_each h (c # cs) =
     (let (h1, d) = dupe_obj h c; (h2, ds) = dupe_each h1 cs in (h2, d # ds))"

text \<open>
  \<open>set(clauses)\<close> on a list of \<open>Clause\<close> references: a reference is left out when
  an earlier one holds the same literals.
\<close>

fun set_of_refs :: "heap \<Rightarrow> ref list \<Rightarrow> ref list" where
  "set_of_refs h [] = []"
| "set_of_refs h (c # cs) =
     c # filter (\<lambda>d. clause_objs h ! d \<noteq> clause_objs h ! c) (set_of_refs h cs)"

definition new_CNF :: "heap \<Rightarrow> ref list \<Rightarrow> heap \<times> ref" where
  "new_CNF h cs =
     (let s = set_of_refs h cs;
          lits = ffUnion (fset_of_list (map (\<lambda>c. clause_objs h ! c) s));
          obj = \<lparr>clause_refs = s, obj_num_literals = int (fcard lits),
                 obj_num_clauses = int (length s)\<rparr>
      in (h\<lparr>cnf_objs := cnf_objs h @ [obj]\<rparr>, length (cnf_objs h)))"

definition add_literal_obj :: "heap \<Rightarrow> ref \<Rightarrow> int \<Rightarrow> heap \<times> ref" where
  "add_literal_obj h self literal =
     (let (h1, new_clauses) = dupe_each h (clause_refs (cnf_objs h ! self));
          (h2, u) = new_Clause h1 {|literal|}
      in new_CNF h2 (new_clauses @ [u]))"

text \<open>
  The formula a \<open>CNF\<close> object stands for, and what it means for the object and the
  clauses it refers to to exist in the two stores.
\<close>

definition cnf_of :: "heap \<Rightarrow> ref \<Rightarrow> cnf" where
  "cnf_of h a =
     \<lparr>clauses = fset_of_list (map (\<lambda>c. Clause (clause_objs h ! c)) (clause_refs (cnf_objs h ! a))),
      num_literals = obj_num_literals (cnf_objs h ! a),
      num_clauses = obj_num_clauses (cnf_objs h ! a)\<rparr>"

definition allocated :: "heap \<Rightarrow> ref \<Rightarrow> bool" where
  "allocated h a =
     (a < length (cnf_objs h) \<and>
      list_all (\<lambda>c. c < length (clause_objs h)) (clause_refs (cnf_objs h ! a)))"

section \<open>The DIMACS reader (parse\_dimacs.py)\<close>

text \<open>
  \<open>parse_dimacs\<close> reads a file with \<open>readlines\<close>; the model takes the list of
  lines, for files of ASCII characters. An exception is a value: the two
  \<open>ValueError\<close>s the function raises itself (with the data their messages are
  formatted from), the \<open>AssertionError\<close> of a failed \<open>assert\<close>, and the
  \<open>UnboundLocalError\<close> of reading the local variable \<open>literal\<close> before it was
  assigned. The third \<open>raise\<close>, for a parser state that is neither of the two,
  cannot be reached. What the function prints is left out: \<open>print\<close> does not
  change what is returned or raised.
\<close>

datatype error =
    ValueError_unexpected_character nat char
  | ValueError_last_clause_not_terminated nat
  | AssertionError
  | UnboundLocalError

datatype ParserState = INIT | PROB

text \<open>
  \<open>str.rstrip()\<close> and \<open>str.split()\<close> without arguments, on the ASCII characters
  that \<open>str.isspace\<close> accepts.
\<close>

definition isspace :: "char \<Rightarrow> bool" where
  "isspace c = (let n = (of_char c :: nat) in (9 \<le> n \<and> n \<le> 13) \<or> (28 \<le> n \<and> n \<le> 32))"

definition rstrip :: "string \<Rightarrow> string" where
  "rstrip s = rev (dropWhile isspace (rev s))"

fun split_from :: "string \<Rightarrow> string \<Rightarrow> string list" where
  "split_from cur [] = (if cur = [] then [] else [cur])"
| "split_from cur (c # s) =
     (if isspace c then (if cur = [] then split_from [] s else cur # split_from [] s)
      else split_from (cur @ [c]) s)"

definition str_split :: "string \<Rightarrow> string list" where
  "str_split s = split_from [] s"

text \<open>
  \<open>int(s)\<close> on a token without whitespace: an optional sign and decimal digits,
  where single underscores may stand between digits. \<open>None\<close> is the
  \<open>ValueError\<close> of \<open>int\<close>.
\<close>

definition isdigit :: "char \<Rightarrow> bool" where
  "isdigit c = (let n = (of_char c :: nat) in 48 \<le> n \<and> n \<le> 57)"

fun digits_ok :: "string \<Rightarrow> bool" where
  "digits_ok [] = False"
| "digits_ok [c] = isdigit c"
| "digits_ok (c # d # s) =
     (isdigit c \<and> (if d = CHR ''_'' then digits_ok s else digits_ok (d # s)))"

definition digits_value :: "string \<Rightarrow> int" where
  "digits_value s = foldl (\<lambda>a c. 10 * a + (int (of_char c) - 48)) 0 (filter isdigit s)"

definition py_int :: "string \<Rightarrow> int option" where
  "py_int s =
     (case s of
        [] \<Rightarrow> None
      | c # r \<Rightarrow>
          if c = CHR ''-'' then (if digits_ok r then Some (- digits_value r) else None)
          else if c = CHR ''+'' then (if digits_ok r then Some (digits_value r) else None)
          else if digits_ok s then Some (digits_value s) else None)"

text \<open>
  The local variables of \<open>parse_dimacs\<close> that live across lines. \<open>literal\<close> is
  assigned in the innermost loop only and keeps its value from one token, and
  one line, to the next; \<open>None\<close> is the variable before its first assignment.
\<close>

record parser =
  parser_state :: ParserState
  p_num_literals :: int
  p_num_clauses :: int
  p_clauses :: "clause list"
  current_literals :: "int fset"
  literal :: "int option"

text \<open>
  The loop over the tokens of a clause line. Where \<open>int\<close> raises, the \<open>except\<close>
  branch prints and the loop goes on to \<open>literals.add(literal)\<close> with the
  variable as it was.
\<close>

fun literal_loop ::
  "string list \<Rightarrow> nat \<Rightarrow> nat \<Rightarrow> int fset \<times> bool \<times> int option
     \<Rightarrow> error + (int fset \<times> bool \<times> int option)" where
  "literal_loop [] index n vars = Inr vars"
| "literal_loop (literal_str # rest) index n (literals', final_line, literal') =
     (if literal_str = ''0'' then
        (if index = n - 1 then literal_loop rest (Suc index) n (literals', True, literal')
         else Inl AssertionError)
      else
        let literal' = (case py_int literal_str of Some i \<Rightarrow> Some i | None \<Rightarrow> literal')
        in case literal' of
             None \<Rightarrow> Inl UnboundLocalError
           | Some i \<Rightarrow>
               literal_loop rest (Suc index) n (finsert i literals', final_line, literal'))"

definition parse_line :: "parser \<Rightarrow> nat \<Rightarrow> string \<Rightarrow> error + parser" where
  "parse_line st line_num line0 =
     (let line = rstrip line0 in
      if line = [] then Inr st
      else if hd line = CHR ''c'' then Inr st
      else case parser_state st of
        INIT \<Rightarrow>
          if hd line \<noteq> CHR ''p'' then Inl (ValueError_unexpected_character line_num (hd line))
          else
            let prob_info = str_split line in
            if length prob_info \<noteq> 4 then Inl AssertionError
            else if prob_info ! 0 \<noteq> ''p'' then Inl AssertionError
            else if prob_info ! 1 \<noteq> ''cnf'' then Inl AssertionError
            else Inr (st\<lparr>p_num_literals :=
                          (case py_int (prob_info ! 2) of Some i \<Rightarrow> i | None \<Rightarrow> p_num_literals st),
                        p_num_clauses :=
                          (case py_int (prob_info ! 3) of Some i \<Rightarrow> i | None \<Rightarrow> p_num_clauses st),
                        parser_state := PROB\<rparr>)
      | PROB \<Rightarrow>
          let literal_strs = str_split line in
          case literal_loop literal_strs 0 (length literal_strs) ({||}, False, literal st) of
            Inl e \<Rightarrow> Inl e
          | Inr (literals', final_line, literal') \<Rightarrow>
              let cur = current_literals st |\<union>| literals' in
              if final_line
              then Inr (st\<lparr>p_clauses := p_clauses st @ [Clause cur],
                           current_literals := {||}, literal := literal'\<rparr>)
              else Inr (st\<lparr>current_literals := cur, literal := literal'\<rparr>))"

fun parse_lines :: "parser \<Rightarrow> nat \<Rightarrow> string list \<Rightarrow> error + parser" where
  "parse_lines st line_num [] = Inr st"
| "parse_lines st line_num (line # rest) =
     (case parse_line st line_num line of
        Inl e \<Rightarrow> Inl e
      | Inr st' \<Rightarrow> parse_lines st' (Suc line_num) rest)"

definition parse_dimacs :: "string list \<Rightarrow> error + cnf" where
  "parse_dimacs lines =
     (case parse_lines \<lparr>parser_state = INIT, p_num_literals = - 1, p_num_clauses = - 1,
                         p_clauses = [], current_literals = {||}, literal = None\<rparr> 0 lines of
        Inl e \<Rightarrow> Inl e
      | Inr st \<Rightarrow>
          if current_literals st \<noteq> {||}
          then Inl (ValueError_last_clause_not_terminated (fcard (current_literals st)))
          else Inr (CNF (p_clauses st) (Some (p_num_literals st)) (Some (p_num_clauses st))))"

section \<open>Simplification keeps satisfiability\<close>

lemma holds0_neg: "l \<noteq> 0 \<Longrightarrow> holds0 v (- l) = (\<not> holds0 v l)"
  unfolding holds0_def by (cases "0 < l") simp_all

lemma holds0_upd: "nat \<bar>l\<bar> \<noteq> x \<Longrightarrow> holds0 (v(x := b)) l = holds0 v l"
proof -
  assume a: "nat \<bar>l\<bar> \<noteq> x"
  consider "l = 0" | "0 < l" | "l < 0" by linarith
  then show ?thesis
  proof cases
    case 1
    then show ?thesis by (simp add: holds0_def)
  next
    case 2
    with a have "nat l \<noteq> x" by simp
    with 2 show ?thesis by (simp add: holds0_def)
  next
    case 3
    with a have "nat (- l) \<noteq> x" by simp
    with 3 show ?thesis by (simp add: holds0_def)
  qed
qed

lemma holds0_set: "holds0 (v(nat \<bar>u\<bar> := (0 < u))) u"
proof -
  consider "u = 0" | "0 < u" | "u < 0" by linarith
  then show ?thesis
  proof cases
    case 1
    then show ?thesis by (simp add: holds0_def)
  next
    case 2
    then show ?thesis by (simp add: holds0_def)
  next
    case 3
    then show ?thesis by (simp add: holds0_def)
  qed
qed

lemma propagated_models0:
  assumes u: "Clause {|u|} |\<in>| clauses F" and m: "models0 v F"
  shows "models0 v (F\<lparr>clauses := propagated u (clauses F)\<rparr>)"
  unfolding models0_def
proof (intro allI impI)
  fix c assume "c |\<in>| clauses (F\<lparr>clauses := propagated u (clauses F)\<rparr>)"
  then obtain d where d: "d |\<in>| clauses F" "u |\<notin>| literals d"
    and c: "c = Clause (literals d |-| {|- u|})" by (auto simp: propagated_iff)
  from m d obtain l where l: "l |\<in>| literals d" "holds0 v l" by (auto simp: models0_def)
  from m u have hu: "holds0 v u" by (auto simp: models0_def)
  have "l \<noteq> - u"
  proof
    assume e: "l = - u"
    with l d have "u \<noteq> 0" by auto
    from holds0_neg [OF this, of v] hu l e show False by simp
  qed
  with l c show "\<exists>l. l |\<in>| literals c \<and> holds0 v l" by auto
qed

lemma models0_propagated:
  assumes m: "models0 v (F\<lparr>clauses := propagated u (clauses F)\<rparr>)"
  shows "models0 (v(nat \<bar>u\<bar> := (0 < u))) F"
  unfolding models0_def
proof (intro allI impI)
  let ?v = "v(nat \<bar>u\<bar> := (0 < u))"
  fix d assume d: "d |\<in>| clauses F"
  show "\<exists>l. l |\<in>| literals d \<and> holds0 ?v l"
  proof (cases "u |\<in>| literals d")
    case True
    then show ?thesis using holds0_set by blast
  next
    case False
    with d have "Clause (literals d |-| {|- u|}) |\<in>| propagated u (clauses F)"
      by (auto simp: propagated_iff)
    then have "Clause (literals d |-| {|- u|}) |\<in>| clauses (F\<lparr>clauses := propagated u (clauses F)\<rparr>)"
      by simp
    from m [unfolded models0_def, rule_format, OF this]
    have "\<exists>l. l |\<in>| literals (Clause (literals d |-| {|- u|})) \<and> holds0 v l" .
    then obtain l where l: "l |\<in>| literals d" "l \<noteq> - u" "holds0 v l"
      by auto
    from l False have "l \<noteq> u" by auto
    with l have "nat \<bar>l\<bar> \<noteq> nat \<bar>u\<bar>" by arith
    from holds0_upd [OF this] l show ?thesis by blast
  qed
qed

lemma propagated_sat0:
  "Clause {|u|} |\<in>| clauses F \<Longrightarrow> sat0 (F\<lparr>clauses := propagated u (clauses F)\<rparr>) = sat0 F"
proof -
  assume u: "Clause {|u|} |\<in>| clauses F"
  show ?thesis
  proof
    assume "sat0 (F\<lparr>clauses := propagated u (clauses F)\<rparr>)"
    then obtain v where "models0 v (F\<lparr>clauses := propagated u (clauses F)\<rparr>)"
      by (auto simp: sat0_def)
    then have "models0 (v(nat \<bar>u\<bar> := (0 < u))) F" by (rule models0_propagated)
    then show "sat0 F" unfolding sat0_def by blast
  next
    assume "sat0 F"
    then obtain v where "models0 v F" by (auto simp: sat0_def)
    with u have "models0 v (F\<lparr>clauses := propagated u (clauses F)\<rparr>)"
      by (rule propagated_models0)
    then show "sat0 (F\<lparr>clauses := propagated u (clauses F)\<rparr>)" unfolding sat0_def by blast
  qed
qed

lemma apply_unit_sat0: "apply_unit F rs = ((b, F'), rs') \<Longrightarrow> sat0 F' = sat0 F"
proof -
  assume a: "apply_unit F rs = ((b, F'), rs')"
  from apply_unit_cases [of F rs] show ?thesis
  proof
    assume "unit_clauses F = {||} \<and> apply_unit F rs = ((False, F), rs)"
    with a show ?thesis by simp
  next
    assume "\<exists>u. Clause {|u|} |\<in>| clauses F \<and>
        apply_unit F rs = ((True, F\<lparr>clauses := propagated u (clauses F)\<rparr>), snd (draw rs))"
    then obtain u where "Clause {|u|} |\<in>| clauses F"
      "apply_unit F rs = ((True, F\<lparr>clauses := propagated u (clauses F)\<rparr>), snd (draw rs))"
      by blast
    with a propagated_sat0 [of u F] show ?thesis by simp
  qed
qed

lemma is_unsat_iff: "is_unsat F \<longleftrightarrow> Clause {||} |\<in>| clauses F"
  unfolding is_unsat_def len_zero_iff by auto

lemma is_unsat_sat0: "is_unsat F \<Longrightarrow> \<not> sat0 F"
proof
  assume "is_unsat F" "sat0 F"
  then obtain v where "Clause {||} |\<in>| clauses F" "models0 v F"
    by (auto simp: is_unsat_iff sat0_def)
  then have "\<exists>l. l |\<in>| literals (Clause {||}) \<and> holds0 v l"
    unfolding models0_def by blast
  then show False by simp
qed

lemma is_sat_iff: "is_sat F \<longleftrightarrow> clauses F = {||}"
  by (simp add: is_sat_def)

lemma is_sat_sat0: "is_sat F \<Longrightarrow> sat0 F"
  by (simp add: is_sat_iff sat0_def models0_def)

lemma fmember_not_fempty: "x |\<in>| S \<Longrightarrow> S \<noteq> {||}"
  by auto

lemma apply_pure_eq:
  "apply_pure F =
     (if pure_literals F = {||} then (False, F)
      else (True, F\<lparr>clauses := ffilter (\<lambda>c. literals c |\<inter>| pure_literals F = {||}) (clauses F)\<rparr>))"
proof (cases "pure_literals F = {||}")
  case True
  then show ?thesis by (simp add: apply_pure_def pure_literals_def)
next
  case False
  then obtain l where l: "l |\<in>| pure_literals F" by auto
  then have "l |\<in>| get_literals F" by (simp add: pure_literals_def)
  then obtain c where c: "c |\<in>| clauses F" "l |\<in>| literals c" by (auto simp: get_literals_iff)
  with l have "c |\<in>| ffilter (\<lambda>c. literals c |\<inter>| pure_literals F \<noteq> {||}) (clauses F)" by auto
  then have "ffilter (\<lambda>c. literals c |\<inter>| pure_literals F \<noteq> {||}) (clauses F) \<noteq> {||}"
    by (rule fmember_not_fempty)
  then have "0 < fcard (ffilter (\<lambda>c. literals c |\<inter>| pure_literals F \<noteq> {||}) (clauses F))"
    by (simp add: fcard_0_eq [symmetric] del: fcard_0_eq)
  with False show ?thesis by (simp add: apply_pure_def Let_def pure_literals_def)
qed

lemma pure_models0:
  assumes m: "models0 v (F\<lparr>clauses := ffilter (\<lambda>c. literals c |\<inter>| pure_literals F = {||}) (clauses F)\<rparr>)"
  shows "models0 (\<lambda>x. if int x |\<in>| pure_literals F then True
                      else if - int x |\<in>| pure_literals F then False else v x) F"
  unfolding models0_def
proof (intro allI impI)
  let ?P = "pure_literals F"
  let ?v = "\<lambda>x. if int x |\<in>| ?P then True else if - int x |\<in>| ?P then False else v x"
  have P: "\<And>l. l |\<in>| ?P \<Longrightarrow> l |\<in>| get_literals F \<and> - l |\<notin>| get_literals F"
    by (simp add: pure_literals_def)
  have pure_holds: "holds0 ?v l" if "l |\<in>| ?P" for l
  proof -
    consider "l = 0" | "0 < l" | "l < 0" by linarith
    then show ?thesis
    proof cases
      case 1 then show ?thesis by (simp add: holds0_def)
    next
      case 2
      with that show ?thesis by (simp add: holds0_def)
    next
      case 3
      have "int (nat (- l)) = - l" using 3 by simp
      moreover have "- l |\<notin>| ?P" using P [OF that] P [of "- l"] by auto
      ultimately show ?thesis using 3 that by (simp add: holds0_def)
    qed
  qed
  fix c assume c: "c |\<in>| clauses F"
  show "\<exists>l. l |\<in>| literals c \<and> holds0 ?v l"
  proof (cases "literals c |\<inter>| ?P = {||}")
    case False
    then obtain l where "l |\<in>| literals c" "l |\<in>| ?P" by auto
    with pure_holds show ?thesis by blast
  next
    case True
    with c have "c |\<in>| clauses (F\<lparr>clauses := ffilter (\<lambda>c. literals c |\<inter>| ?P = {||}) (clauses F)\<rparr>)"
      by simp
    from m [unfolded models0_def, rule_format, OF this]
    obtain l where l: "l |\<in>| literals c" "holds0 v l" by blast
    from l c have lF: "l |\<in>| get_literals F" by (auto simp: get_literals_iff)
    from l True have lP: "l |\<notin>| ?P" by auto
    have nP: "- l |\<notin>| ?P" using P [of "- l"] lF by auto
    have "holds0 ?v l"
    proof -
      consider "l = 0" | "0 < l" | "l < 0" by linarith
      then show ?thesis
      proof cases
        case 1 then show ?thesis by (simp add: holds0_def)
      next
        case 2
        then have "int (nat l) = l" by simp
        with 2 lP nP l(2) show ?thesis by (simp add: holds0_def)
      next
        case 3
        then have "int (nat (- l)) = - l" by simp
        with 3 lP nP l(2) show ?thesis by (simp add: holds0_def)
      qed
    qed
    with l show ?thesis by blast
  qed
qed

lemma apply_pure_sat0: "apply_pure F = (b, F') \<Longrightarrow> sat0 F' = sat0 F"
proof -
  assume a: "apply_pure F = (b, F')"
  let ?G = "F\<lparr>clauses := ffilter (\<lambda>c. literals c |\<inter>| pure_literals F = {||}) (clauses F)\<rparr>"
  have "sat0 ?G = sat0 F"
  proof
    assume "sat0 ?G"
    then obtain v where "models0 v ?G" by (auto simp: sat0_def)
    from pure_models0 [OF this] show "sat0 F" unfolding sat0_def by blast
  next
    assume "sat0 F"
    then obtain v where "models0 v F" by (auto simp: sat0_def)
    then have "models0 v ?G" unfolding models0_def by simp
    then show "sat0 ?G" unfolding sat0_def by blast
  qed
  with a show ?thesis by (auto simp: apply_pure_eq split: if_splits)
qed

lemma pure_loop_sat0: "sat0 (pure_loop F) = sat0 F"
proof (induction F rule: pure_loop.induct)
  case (1 F)
  obtain b F' where a: "apply_pure F = (b, F')" by (metis surj_pair)
  note e = apply_pure_sat0 [OF a]
  show ?case
  proof (cases b)
    case True
    from "1.IH" [OF a [symmetric] eqTrueI [OF True]] e a True
    show ?thesis by (simp add: pure_loop.simps [of F])
  next
    case False
    with e a show ?thesis by (simp add: pure_loop.simps [of F])
  qed
qed

lemma unit_loop_sat0:
  "unit_loop F rs = (r, rs1) \<Longrightarrow> (case r of None \<Rightarrow> \<not> sat0 F | Some F1 \<Rightarrow> sat0 F1 = sat0 F)"
proof (induction F rs rule: unit_loop.induct)
  case (1 F rs)
  obtain b F' rs' where a: "apply_unit F rs = ((b, F'), rs')" by (metis surj_pair)
  note e = apply_unit_sat0 [OF a]
  show ?case
  proof (cases b)
    case False
    with a "1.prems" e show ?thesis
      by (auto simp: unit_loop.simps [of F rs])
  next
    case True
    show ?thesis
    proof (cases "is_unsat F'")
      case u: True
      with a True "1.prems" have "r = None" by (auto simp: unit_loop.simps [of F rs])
      with u e show ?thesis by (auto dest: is_unsat_sat0)
    next
      case nu: False
      with a True "1.prems" have r: "unit_loop F' rs' = (r, rs1)"
        by (auto simp: unit_loop.simps [of F rs])
      from "1.IH" [OF a [symmetric] refl eqTrueI [OF True] nu r] e
      show ?thesis by (auto split: option.splits)
    qed
  qed
qed

lemma models0_add_literal: "models0 v (add_literal F l) \<longleftrightarrow> holds0 v l \<and> models0 v F"
  unfolding models0_def clauses_add_literal by auto

lemma add_literal_sat0: "sat0 F \<longleftrightarrow> sat0 (add_literal F l) \<or> sat0 (add_literal F (- l))"
proof
  assume "sat0 F"
  then obtain v where v: "models0 v F" by (auto simp: sat0_def)
  show "sat0 (add_literal F l) \<or> sat0 (add_literal F (- l))"
  proof (cases "holds0 v l")
    case True
    with v have "models0 v (add_literal F l)" by (simp add: models0_add_literal)
    then show ?thesis unfolding sat0_def by blast
  next
    case False
    then have "l \<noteq> 0" by (auto simp: holds0_def)
    from holds0_neg [OF this, of v] False v have "models0 v (add_literal F (- l))"
      by (simp add: models0_add_literal)
    then show ?thesis unfolding sat0_def by blast
  qed
next
  assume "sat0 (add_literal F l) \<or> sat0 (add_literal F (- l))"
  then show "sat0 F" unfolding sat0_def models0_add_literal by blast
qed

lemma no_literals_sat0:
  assumes "get_literals F = {||}" "clauses F \<noteq> {||}"
  shows "\<not> sat0 F"
proof -
  from assms(2) obtain c where c: "c |\<in>| clauses F" by auto
  have "literals c = {||}"
  proof (rule ccontr)
    assume "literals c \<noteq> {||}"
    then obtain l where "l |\<in>| literals c" by auto
    with c have "l |\<in>| get_literals F" by (auto simp: get_literals_iff)
    with assms(1) show False by simp
  qed
  with c have "Clause {||} |\<in>| clauses F" by (cases c) simp
  then have "is_unsat F" by (simp add: is_unsat_iff)
  then show ?thesis by (rule is_unsat_sat0)
qed

lemma dpll_sat0:
  "fst (dpll F rs) = sat0 F"
  "clauses G \<noteq> {||} \<Longrightarrow> fst (apply_split G rs') = sat0 G"
proof (induction F rs and G rs' rule: dpll_apply_split.induct)
  case (1 F rs)
  obtain r rs1 where ul: "unit_loop F rs = (r, rs1)" by (metis surj_pair)
  show ?case
  proof (cases r)
    case None
    with ul unit_loop_sat0 [OF ul] show ?thesis by (simp add: dpll.simps [of F rs])
  next
    case (Some F1)
    with unit_loop_sat0 [OF ul] have e1: "sat0 F1 = sat0 F" by simp
    let ?F2 = "pure_loop F1"
    have e2: "sat0 ?F2 = sat0 F" using e1 by (simp add: pure_loop_sat0)
    show ?thesis
    proof (cases "is_sat ?F2")
      case True
      with ul Some e2 is_sat_sat0 [OF True] show ?thesis
        by (simp add: dpll.simps [of F rs])
    next
      case ns: False
      show ?thesis
      proof (cases "is_unsat ?F2")
        case True
        with ul Some ns e2 is_unsat_sat0 [OF True] show ?thesis
          by (simp add: dpll.simps [of F rs])
      next
        case nu: False
        from ns have ne: "clauses ?F2 \<noteq> {||}" by (simp add: is_sat_iff)
        from "1.IH" [OF ul [symmetric] Some refl ns nu ne]
        have "fst (apply_split ?F2 rs1) = sat0 ?F2" .
        with ul Some ns nu e2 show ?thesis by (simp add: dpll.simps [of F rs])
      qed
    qed
  qed
next
  case (2 F rs)
  show ?case
  proof (cases "get_literals F = {||}")
    case True
    with no_literals_sat0 [OF True "2.prems"] show ?thesis
      by (simp add: apply_split.simps [of F rs])
  next
    case False
    obtain r rs1 where d: "draw rs = (r, rs1)" by (metis surj_pair)
    let ?l = "pick (get_literals F) r"
    obtain b rs2 where c1: "dpll (add_literal F ?l) rs1 = (b, rs2)" by (metis surj_pair)
    from "2.IH"(1) [OF refl False refl d [symmetric] refl] c1
    have b: "b = sat0 (add_literal F ?l)" by simp
    show ?thesis
    proof (cases b)
      case True
      with b have "sat0 F" using add_literal_sat0 [of F ?l] by simp
      with True False d c1 show ?thesis by (simp add: apply_split.simps [of F rs])
    next
      case nb: False
      from "2.IH"(2) [OF refl False refl d [symmetric] refl refl c1 [symmetric] nb]
      have "fst (dpll (add_literal F (- ?l)) rs2) = sat0 (add_literal F (- ?l))" .
      with nb b False d c1 add_literal_sat0 [of F ?l] show ?thesis
        by (simp add: apply_split.simps [of F rs])
    qed
  qed
qed

section \<open>The decision is right\<close>

lemma satisfiable_sat0: "0 |\<notin>| get_literals F \<Longrightarrow> satisfiable F = sat0 F"
proof -
  assume z: "0 |\<notin>| get_literals F"
  have "(\<exists>l. l |\<in>| literals c \<and> ((0 < l \<and> v (nat l)) \<or> (l < 0 \<and> \<not> v (nat (- l))))) =
        (\<exists>l. l |\<in>| literals c \<and> holds0 v l)" if "c |\<in>| clauses F" for c v
  proof -
    have "l \<noteq> 0" if "l |\<in>| literals c" for l
      using that \<open>c |\<in>| clauses F\<close> z by (auto simp: get_literals_iff)
    then show ?thesis unfolding holds0_def by blast
  qed
  then show ?thesis unfolding satisfiable_def sat0_def models0_def by simp
qed

text \<open>
  Claim C1. On a formula whose literals are all nonzero, \<open>dpll\<close> returns \<open>True\<close>
  exactly when some valuation satisfies every clause and \<open>False\<close> exactly when
  none does, whatever unit clauses and split literals the run picks.
\<close>

theorem dpll_decides:
  assumes "0 |\<notin>| get_literals F"
  shows "(fst (dpll F rs) = True \<longleftrightarrow> satisfiable F) \<and>
         (fst (dpll F rs) = False \<longleftrightarrow> \<not> satisfiable F)"
  using satisfiable_sat0 [OF assms] dpll_sat0(1) [of F rs] by simp

theorem dpll_decides_witness:
  "0 |\<notin>| get_literals (CNF [Clause {|1, 2|}, Clause {|- 1, - 2|}] None None) \<and>
   fst (dpll (CNF [Clause {|1, 2|}, Clause {|- 1, - 2|}] None None) [3, 1]) = True \<and>
   satisfiable (CNF [Clause {|1, 2|}, Clause {|- 1, - 2|}] None None) \<and>
   0 |\<notin>| get_literals (CNF [Clause {|1|}, Clause {|- 1|}] None None) \<and>
   fst (dpll (CNF [Clause {|1|}, Clause {|- 1|}] None None) []) = False \<and>
   \<not> satisfiable (CNF [Clause {|1|}, Clause {|- 1|}] None None)"
proof -
  let ?F = "CNF [Clause {|1, 2|}, Clause {|- 1, - 2|}] None None"
  let ?G = "CNF [Clause {|1|}, Clause {|- 1|}] None None"
  have a: "0 |\<notin>| get_literals ?F" by code_simp
  have b: "fst (dpll ?F [3, 1]) = True" by code_simp
  have c: "0 |\<notin>| get_literals ?G" by code_simp
  have d: "fst (dpll ?G []) = False" by code_simp
  from dpll_decides [OF a, of "[3, 1]"] dpll_decides [OF c, of "[]"] a b c d
  show ?thesis by simp
qed

text \<open>
  Claim C5. Two runs of \<open>dpll\<close> on formulas with the same clause set return the
  same boolean, whatever the two runs pick; the literal 0 is allowed here.
\<close>

theorem dpll_outcome_deterministic:
  assumes "clauses F = clauses G"
  shows "fst (dpll F rs) = fst (dpll G rs')"
proof -
  from assms have "sat0 F = sat0 G" by (simp add: sat0_def models0_def)
  then show ?thesis by (simp add: dpll_sat0(1))
qed

theorem dpll_outcome_deterministic_witness:
  "clauses (CNF [Clause {|1, 2|}, Clause {|- 1, - 2|}] None None) =
     clauses (CNF [Clause {|- 2, - 1|}, Clause {|2, 1|}, Clause {|1, 2|}] (Some 7) None) \<and>
   fst (dpll (CNF [Clause {|1, 2|}, Clause {|- 1, - 2|}] None None) [0, 0]) =
     fst (dpll (CNF [Clause {|- 2, - 1|}, Clause {|2, 1|}, Clause {|1, 2|}] (Some 7) None) [3, 5])"
proof -
  let ?F = "CNF [Clause {|1, 2|}, Clause {|- 1, - 2|}] None None"
  let ?G = "CNF [Clause {|- 2, - 1|}, Clause {|2, 1|}, Clause {|1, 2|}] (Some 7) None"
  have a: "clauses ?F = clauses ?G" by code_simp
  from dpll_outcome_deterministic [OF a, of "[0, 0]" "[3, 5]"] a show ?thesis by simp
qed

section \<open>What the two simplification rules do\<close>

text \<open>
  Claim C7. On a formula with no unit clause \<open>apply_unit\<close> returns \<open>False\<close> and
  leaves the formula as it is (and draws nothing from the choices); on a formula
  with no pure literal \<open>apply_pure\<close> returns \<open>False\<close> and leaves the formula as it
  is.
\<close>
theorem simplification_without_effect:
  "(unit_clauses F = {||} \<longrightarrow> apply_unit F rs = ((False, F), rs)) \<and>
   (pure_literals F = {||} \<longrightarrow> apply_pure F = (False, F))"
  by (simp add: apply_unit_def apply_pure_eq)

theorem simplification_without_effect_witness:
  "unit_clauses (CNF [Clause {|1, 2|}, Clause {|- 1, - 2|}] None None) = {||} \<and>
   pure_literals (CNF [Clause {|1, 2|}, Clause {|- 1, - 2|}] None None) = {||} \<and>
   apply_unit (CNF [Clause {|1, 2|}, Clause {|- 1, - 2|}] None None) [4] =
     ((False, CNF [Clause {|1, 2|}, Clause {|- 1, - 2|}] None None), [4]) \<and>
   apply_pure (CNF [Clause {|1, 2|}, Clause {|- 1, - 2|}] None None) =
     (False, CNF [Clause {|1, 2|}, Clause {|- 1, - 2|}] None None)"
proof -
  let ?F = "CNF [Clause {|1, 2|}, Clause {|- 1, - 2|}] None None"
  have a: "unit_clauses ?F = {||}" by code_simp
  have b: "pure_literals ?F = {||}" by code_simp
  from simplification_without_effect [of ?F "[4]"] a b show ?thesis by simp
qed

text \<open>
  Claim C10. A formula that contains the empty clause still contains it after one
  \<open>apply_unit\<close> and after one \<open>apply_pure\<close>: neither rule makes \<open>is_unsat\<close>
  false once it is true.
\<close>
theorem empty_clause_stays:
  assumes "is_unsat F"
  shows "is_unsat (snd (fst (apply_unit F rs))) \<and> is_unsat (snd (apply_pure F))"
proof
  from assms have e: "Clause {||} |\<in>| clauses F" by (simp add: is_unsat_iff)
  from apply_unit_cases [of F rs] show "is_unsat (snd (fst (apply_unit F rs)))"
  proof
    assume "unit_clauses F = {||} \<and> apply_unit F rs = ((False, F), rs)"
    with assms show ?thesis by simp
  next
    assume "\<exists>u. Clause {|u|} |\<in>| clauses F \<and>
        apply_unit F rs = ((True, F\<lparr>clauses := propagated u (clauses F)\<rparr>), snd (draw rs))"
    then obtain u where
      a: "apply_unit F rs = ((True, F\<lparr>clauses := propagated u (clauses F)\<rparr>), snd (draw rs))"
      by blast
    from e have "Clause {||} |\<in>| propagated u (clauses F)"
      unfolding propagated_iff by (intro exI [of _ "Clause {||}"]) simp
    with a show ?thesis by (simp add: is_unsat_iff)
  qed
  from e show "is_unsat (snd (apply_pure F))" by (simp add: apply_pure_eq is_unsat_iff)
qed

theorem empty_clause_stays_witness:
  "is_unsat (CNF [Clause {||}, Clause {|1|}, Clause {|- 1, 2|}, Clause {|3|}] None None) \<and>
   is_unsat (snd (fst (apply_unit
      (CNF [Clause {||}, Clause {|1|}, Clause {|- 1, 2|}, Clause {|3|}] None None) [1]))) \<and>
   is_unsat (snd (apply_pure
      (CNF [Clause {||}, Clause {|1|}, Clause {|- 1, 2|}, Clause {|3|}] None None)))"
proof -
  let ?F = "CNF [Clause {||}, Clause {|1|}, Clause {|- 1, 2|}, Clause {|3|}] None None"
  have a: "is_unsat ?F" by code_simp
  from empty_clause_stays [OF a, of "[1]"] a show ?thesis by simp
qed

text \<open>
  Claim C4. One \<open>apply_pure\<close> keeps exactly the clauses that contain no pure
  literal, each as it was, removes all others, returns \<open>True\<close> exactly when the
  clause set changed, and leaves the two counts alone.
\<close>
theorem apply_pure_removes_pure_clauses:
  "clauses (snd (apply_pure F)) =
     ffilter (\<lambda>c. \<not> fBex (literals c) (\<lambda>l. l |\<in>| pure_literals F)) (clauses F) \<and>
   fst (apply_pure F) = (clauses (snd (apply_pure F)) \<noteq> clauses F) \<and>
   num_literals (snd (apply_pure F)) = num_literals F \<and>
   num_clauses (snd (apply_pure F)) = num_clauses F"
proof -
  have eq: "(literals c |\<inter>| pure_literals F = {||}) =
            (\<not> fBex (literals c) (\<lambda>l. l |\<in>| pure_literals F))" for c
    by auto
  show ?thesis
  proof (cases "pure_literals F = {||}")
    case True
    then show ?thesis by (auto simp: apply_pure_eq)
  next
    case False
    then have "apply_pure F = (True, F\<lparr>clauses :=
        ffilter (\<lambda>c. literals c |\<inter>| pure_literals F = {||}) (clauses F)\<rparr>)"
      by (simp add: apply_pure_eq)
    moreover from this apply_pure_fcard [of F]
    have "fcard (ffilter (\<lambda>c. literals c |\<inter>| pure_literals F = {||}) (clauses F))
            < fcard (clauses F)" by simp
    then have "ffilter (\<lambda>c. literals c |\<inter>| pure_literals F = {||}) (clauses F) \<noteq> clauses F"
      by auto
    ultimately show ?thesis by (simp add: eq)
  qed
qed

theorem apply_pure_removes_pure_clauses_witness:
  "pure_literals (CNF [Clause {|1, 2|}, Clause {|- 2, 3|}, Clause {|1, 3|}, Clause {|2, - 2|}] None None)
     = {|1, 3|} \<and>
   apply_pure (CNF [Clause {|1, 2|}, Clause {|- 2, 3|}, Clause {|1, 3|}, Clause {|2, - 2|}] None None)
     = (True, \<lparr>clauses = {|Clause {|2, - 2|}|}, num_literals = 4, num_clauses = 4\<rparr>)"
proof -
  let ?F = "CNF [Clause {|1, 2|}, Clause {|- 2, 3|}, Clause {|1, 3|}, Clause {|2, - 2|}] None None"
  have a: "pure_literals ?F = {|1, 3|}" by code_simp
  have b: "ffilter (\<lambda>c. \<not> fBex (literals c) (\<lambda>l. l |\<in>| {|1, 3|})) (clauses ?F)
             = {|Clause {|2, - 2|}|}" by code_simp
  have c: "clauses ?F \<noteq> {|Clause {|2, - 2|}|}" by code_simp
  have d: "num_literals ?F = 4" "num_clauses ?F = 4" by code_simp+
  from apply_pure_removes_pure_clauses [of ?F] a b c d show ?thesis
    by (cases "apply_pure ?F") (auto simp del: fminus_iff)
qed

text \<open>
  Claim C3. Without a unit clause \<open>apply_unit\<close> returns \<open>False\<close>. With one it
  returns \<open>True\<close>, and for the literal \<open>u\<close> of the unit clause it chose: that clause
  and every clause containing \<open>u\<close> are gone (a clause containing both \<open>u\<close> and
  \<open>- u\<close> is among them); every other clause containing \<open>- u\<close> is there with
  \<open>- u\<close> taken out; when that leaves a clause empty, \<open>is_unsat\<close> holds of the
  result; a clause with neither \<open>u\<close> nor \<open>- u\<close> is there unchanged; and the result
  holds nothing else.
\<close>
theorem apply_unit_propagates:
  assumes "apply_unit F rs = ((b, F'), rs')"
  shows "(unit_clauses F = {||} \<longrightarrow> b = False) \<and>
    (unit_clauses F \<noteq> {||} \<longrightarrow> b = True \<and>
      (\<exists>u. Clause {|u|} |\<in>| clauses F \<and>
        Clause {|u|} |\<notin>| clauses F' \<and>
        (\<forall>c. c |\<in>| clauses F \<and> u |\<in>| literals c \<longrightarrow> c |\<notin>| clauses F') \<and>
        (\<forall>c. c |\<in>| clauses F \<and> u |\<notin>| literals c \<and> - u |\<in>| literals c \<longrightarrow>
             Clause (literals c |-| {|- u|}) |\<in>| clauses F') \<and>
        (\<forall>c. c |\<in>| clauses F \<and> u |\<notin>| literals c \<and> literals c |-| {|- u|} = {||} \<longrightarrow>
             is_unsat F') \<and>
        (\<forall>c. c |\<in>| clauses F \<and> u |\<notin>| literals c \<and> - u |\<notin>| literals c \<longrightarrow>
             c |\<in>| clauses F') \<and>
        (\<forall>c. c |\<in>| clauses F' \<longrightarrow> u |\<notin>| literals c \<and> - u |\<notin>| literals c \<and>
             (\<exists>d. d |\<in>| clauses F \<and> u |\<notin>| literals d \<and> literals c = literals d |-| {|- u|}))))"
proof (cases "unit_clauses F = {||}")
  case True
  with assms show ?thesis by (simp add: apply_unit_def)
next
  case False
  with apply_unit_cases [of F rs] obtain u where u: "Clause {|u|} |\<in>| clauses F"
    and a: "apply_unit F rs = ((True, F\<lparr>clauses := propagated u (clauses F)\<rparr>), snd (draw rs))"
    by blast
  from a assms have b: "b = True" and F': "clauses F' = propagated u (clauses F)" by auto
  have 1: "Clause {|u|} |\<notin>| clauses F'" unfolding F' propagated_iff by auto
  have 2: "\<forall>c. c |\<in>| clauses F \<and> u |\<in>| literals c \<longrightarrow> c |\<notin>| clauses F'"
    unfolding F' propagated_iff by auto
  have 3: "\<forall>c. c |\<in>| clauses F \<and> u |\<notin>| literals c \<and> - u |\<in>| literals c \<longrightarrow>
             Clause (literals c |-| {|- u|}) |\<in>| clauses F'"
    unfolding F' propagated_iff by blast
  have 4: "\<forall>c. c |\<in>| clauses F \<and> u |\<notin>| literals c \<and> literals c |-| {|- u|} = {||} \<longrightarrow>
             is_unsat F'"
  proof (intro allI impI)
    fix c assume c: "c |\<in>| clauses F \<and> u |\<notin>| literals c \<and> literals c |-| {|- u|} = {||}"
    then have m: "Clause (literals c |-| {|- u|}) |\<in>| propagated u (clauses F)"
      unfolding propagated_iff by blast
    from c have e: "literals c |-| {|- u|} = {||}" by blast
    from m have "Clause {||} |\<in>| clauses F'" unfolding e F' .
    then show "is_unsat F'" by (simp add: is_unsat_iff)
  qed
  have 5: "\<forall>c. c |\<in>| clauses F \<and> u |\<notin>| literals c \<and> - u |\<notin>| literals c \<longrightarrow> c |\<in>| clauses F'"
  proof (intro allI impI)
    fix c assume c: "c |\<in>| clauses F \<and> u |\<notin>| literals c \<and> - u |\<notin>| literals c"
    then have "literals c |-| {|- u|} = literals c" by auto
    then have "c = Clause (literals c |-| {|- u|})" by simp
    with c show "c |\<in>| clauses F'" unfolding F' propagated_iff by blast
  qed
  have 6: "\<forall>c. c |\<in>| clauses F' \<longrightarrow> u |\<notin>| literals c \<and> - u |\<notin>| literals c \<and>
             (\<exists>d. d |\<in>| clauses F \<and> u |\<notin>| literals d \<and> literals c = literals d |-| {|- u|})"
    unfolding F' propagated_iff by auto
  from False b u 1 2 3 4 5 6 show ?thesis by blast
qed

theorem apply_unit_propagates_witness:
  "apply_unit (CNF [Clause {|1|}, Clause {|1, 2|}, Clause {|- 1|}, Clause {|- 1, 3|},
                    Clause {|2, 3|}, Clause {|1, - 1, 4|}] None None) [1] =
     ((True, \<lparr>clauses = {|Clause {||}, Clause {|3|}, Clause {|2, 3|}|},
              num_literals = 5, num_clauses = 6\<rparr>), []) \<and>
   unit_clauses (CNF [Clause {|1|}, Clause {|1, 2|}, Clause {|- 1|}, Clause {|- 1, 3|},
                    Clause {|2, 3|}, Clause {|1, - 1, 4|}] None None) \<noteq> {||} \<and>
   (\<exists>u. Clause {|u|} |\<in>| clauses (CNF [Clause {|1|}, Clause {|1, 2|}, Clause {|- 1|},
                    Clause {|- 1, 3|}, Clause {|2, 3|}, Clause {|1, - 1, 4|}] None None) \<and>
        Clause {|u|} |\<notin>| {|Clause {||}, Clause {|3|}, Clause {|2, 3|}|})"
proof -
  let ?F = "CNF [Clause {|1|}, Clause {|1, 2|}, Clause {|- 1|}, Clause {|- 1, 3|},
                    Clause {|2, 3|}, Clause {|1, - 1, 4|}] None None"
  let ?F' = "\<lparr>clauses = {|Clause {||}, Clause {|3|}, Clause {|2, 3|}|},
              num_literals = 5, num_clauses = 6\<rparr>"
  have a: "apply_unit ?F [1] = ((True, ?F'), [])" by code_simp
  have b: "unit_clauses ?F \<noteq> {||}" by code_simp
  from apply_unit_propagates [OF a] b
  have "\<exists>u. Clause {|u|} |\<in>| clauses ?F \<and> Clause {|u|} |\<notin>| clauses ?F'" by blast
  with a b show ?thesis by simp
qed

text \<open>
  Claim C8. A clause list and the same list without its duplicates construct the
  same formula, so the clause count is the number of distinct clauses and
  \<open>dpll\<close> returns the same boolean; two clauses are equal exactly when they hold
  the same literals, in whatever order and multiplicity these were given.
\<close>
theorem duplicate_clauses_collapse:
  "CNF cs nl nc = CNF (remdups cs) nl nc \<and>
   fcard (clauses (CNF cs nl nc)) = length (remdups cs) \<and>
   num_clauses (CNF cs None None) = int (length (remdups cs)) \<and>
   fst (dpll (CNF cs nl nc) rs) = fst (dpll (CNF (remdups cs) nl nc) rs') \<and>
   (Clause (fset_of_list xs) = Clause (fset_of_list ys) \<longleftrightarrow> set xs = set ys)"
proof -
  have a: "fset_of_list (remdups cs) = fset_of_list cs"
    by (simp add: fset_of_list.rep_eq fset_inject [symmetric])
  then have b: "CNF cs nl nc = CNF (remdups cs) nl nc" by (simp add: CNF_def)
  have c: "fcard (fset_of_list cs) = length (remdups cs)"
    by (simp add: fcard.rep_eq fset_of_list.rep_eq length_remdups_card_conv)
  have d: "clauses (CNF cs nl nc) = fset_of_list cs" for nl nc
    by (simp add: CNF_def Let_def)
  have e: "num_clauses (CNF cs None None) = int (fcard (fset_of_list cs))"
    by (simp add: CNF_def Let_def)
  have f: "fst (dpll (CNF cs nl nc) rs) = fst (dpll (CNF (remdups cs) nl nc) rs')"
    unfolding b [symmetric] by (simp add: dpll_sat0(1))
  have g: "(Clause (fset_of_list xs) = Clause (fset_of_list ys)) = (set xs = set ys)"
    by (simp add: fset_inject [symmetric] fset_of_list.rep_eq)
  from c d have c': "fcard (clauses (CNF cs nl nc)) = length (remdups cs)" by simp
  from e c have e': "num_clauses (CNF cs None None) = int (length (remdups cs))" by simp
  from b c' e' f g show ?thesis by (intro conjI)
qed

theorem duplicate_clauses_collapse_witness:
  "CNF [Clause (fset_of_list [1, 2]), Clause (fset_of_list [2, 1, 2]), Clause {|- 1|}] None None =
     CNF [Clause {|1, 2|}, Clause {|- 1|}] None None \<and>
   num_clauses (CNF [Clause (fset_of_list [1, 2]), Clause (fset_of_list [2, 1, 2]), Clause {|- 1|}]
     None None) = 2"
proof -
  let ?cs = "[Clause (fset_of_list [1, 2]), Clause (fset_of_list [2, 1, 2]), Clause {|- 1|}]"
  have r: "remdups ?cs = [Clause {|1, 2|}, Clause {|- 1|}]" by code_simp
  from duplicate_clauses_collapse [of ?cs None None]
  have "CNF ?cs None None = CNF (remdups ?cs) None None"
    and "num_clauses (CNF ?cs None None) = int (length (remdups ?cs))" by blast+
  then show ?thesis unfolding r by simp
qed

section \<open>Termination\<close>

lemma dpll_depth_enough:
  "fcard (variables F) + (if unit_clauses F = {||} then 1 else 0) \<le> n \<Longrightarrow>
     dpll_depth n F rs = Some (dpll F rs)"
proof (induction n arbitrary: F rs)
  case 0
  have "variables F \<noteq> {||}" if "unit_clauses F \<noteq> {||}"
  proof -
    from that obtain c where "c |\<in>| unit_clauses F" by auto
    then obtain u where "Clause {|u|} |\<in>| clauses F" by (auto simp: unit_clauses_iff)
    then have "nat \<bar>u\<bar> |\<in>| variables F" unfolding variables_iff by force
    then show ?thesis by auto
  qed
  with 0 show ?case by (cases "unit_clauses F = {||}") auto
next
  case (Suc n)
  obtain r rs1 where ul: "unit_loop F rs = (r, rs1)" by (metis surj_pair)
  show ?case
  proof (cases r)
    case None
    with ul show ?thesis by (simp add: dpll.simps [of F rs])
  next
    case (Some F1)
    let ?F2 = "pure_loop F1"
    from unit_loop_Some [OF ul [unfolded Some]]
    have a: "fcard (variables F1) \<le> fcard (variables F)"
      and b: "unit_clauses F \<noteq> {||} \<Longrightarrow> fcard (variables F1) < fcard (variables F)" by auto
    have "fcard (variables ?F2) \<le> fcard (variables F1)"
      by (intro fcard_mono variables_mono pure_loop_subset)
    with a b Suc.prems have v2: "fcard (variables ?F2) \<le> n"
      by (cases "unit_clauses F = {||}") auto
    have split: "apply_split_depth n ?F2 rs1 = Some (apply_split ?F2 rs1)"
    proof (cases "get_literals ?F2 = {||}")
      case True
      then show ?thesis by (simp add: apply_split.simps [of ?F2 rs1])
    next
      case False
      obtain q rs2 where d: "draw rs1 = (q, rs2)" by (metis surj_pair)
      let ?l = "pick (get_literals ?F2) q"
      have "nat \<bar>?l\<bar> |\<in>| variables ?F2"
        using pick_mem [OF False, of q] by (auto simp: variables_def)
      then have "variables (add_literal ?F2 ?l) = variables ?F2"
        "variables (add_literal ?F2 (- ?l)) = variables ?F2"
        by (auto simp: variables_add_literal)
      with v2 have
        "dpll_depth n (add_literal ?F2 ?l) rs2 = Some (dpll (add_literal ?F2 ?l) rs2)"
        "\<And>rs3. dpll_depth n (add_literal ?F2 (- ?l)) rs3 = Some (dpll (add_literal ?F2 (- ?l)) rs3)"
        by (auto intro!: Suc.IH simp: unit_clauses_add_literal)
      with False d show ?thesis
        by (simp add: apply_split.simps [of ?F2 rs1] Let_def split: prod.splits)
    qed
    with ul Some show ?thesis by (simp add: dpll.simps [of F rs] Let_def)
  qed
qed

lemma unit_clauses_add_literal_eq:
  "unit_clauses F = {||} \<Longrightarrow> unit_clauses (add_literal F l) = {|Clause {|l|}|}"
proof -
  assume a: "unit_clauses F = {||}"
  have "c |\<in>| unit_clauses (add_literal F l) \<longleftrightarrow> c = Clause {|l|}" for c
  proof
    assume "c |\<in>| unit_clauses (add_literal F l)"
    then have "c = Clause {|l|} \<or> c |\<in>| unit_clauses F"
      by (auto simp: unit_clauses_iff clauses_add_literal)
    with a show "c = Clause {|l|}" by simp
  next
    assume "c = Clause {|l|}"
    then show "c |\<in>| unit_clauses (add_literal F l)"
      by (auto simp: unit_clauses_iff clauses_add_literal)
  qed
  then show ?thesis by auto
qed

lemma split_branch_loses_variable:
  assumes nu: "unit_clauses F = {||}" and v: "nat \<bar>l\<bar> |\<in>| variables F"
  shows "fst (fst (apply_unit (add_literal F l) rs)) = True \<and>
         variables (snd (fst (apply_unit (add_literal F l) rs))) |\<subseteq>| variables F |-| {|nat \<bar>l\<bar>|} \<and>
         fcard (variables (snd (fst (apply_unit (add_literal F l) rs)))) < fcard (variables F)"
proof -
  let ?G = "add_literal F l"
  from apply_unit_cases [of ?G rs] unit_clauses_add_literal [of F l]
  obtain u where u: "Clause {|u|} |\<in>| clauses ?G"
    and a: "apply_unit ?G rs = ((True, ?G\<lparr>clauses := propagated u (clauses ?G)\<rparr>), snd (draw rs))"
    by blast
  from u have "Clause {|u|} |\<in>| unit_clauses ?G" by (auto simp: unit_clauses_iff)
  with unit_clauses_add_literal_eq [OF nu, of l] have ul: "u = l" by simp
  from v have vG: "variables ?G = variables F" by (auto simp: variables_add_literal)
  from variables_propagated [OF u] have
    s: "variables (snd (fst (apply_unit ?G rs))) |\<subseteq>| variables F |-| {|nat \<bar>l\<bar>|}"
    by (simp add: a ul vG)
  then have "fcard (variables (snd (fst (apply_unit ?G rs)))) \<le> fcard (variables F |-| {|nat \<bar>l\<bar>|})"
    by (rule fcard_mono)
  also have "\<dots> < fcard (variables F)" using v by (rule fcard_fminus1_less)
  finally show ?thesis using s a by simp
qed

text \<open>
  Claim C2. \<open>dpll\<close> returns on every formula and for every choice the run
  makes: one more level of nested calls than the formula has variables is
  always enough. The reason is the one the claim gives: at a split (no unit
  clause is left) on a literal \<open>l\<close> of the formula, the first unit propagation in
  each of the two sub-formulas takes the added unit clause, after which the
  variable of \<open>l\<close> is gone and no variable is new, so the sub-formula has fewer
  variables than the formula that was split.
\<close>
theorem dpll_terminates:
  "dpll_depth (Suc (fcard (variables F))) F rs = Some (dpll F rs) \<and>
   (unit_clauses F = {||} \<and> l |\<in>| get_literals F \<longrightarrow>
      (\<forall>G. G = add_literal F l \<or> G = add_literal F (- l) \<longrightarrow>
         fst (fst (apply_unit G rs')) = True \<and>
         nat \<bar>l\<bar> |\<notin>| variables (snd (fst (apply_unit G rs'))) \<and>
         variables (snd (fst (apply_unit G rs'))) |\<subseteq>| variables F \<and>
         fcard (variables (snd (fst (apply_unit G rs')))) < fcard (variables F)))"
proof (intro conjI impI allI)
  show "dpll_depth (Suc (fcard (variables F))) F rs = Some (dpll F rs)"
    by (rule dpll_depth_enough) simp
next
  fix G
  assume h: "unit_clauses F = {||} \<and> l |\<in>| get_literals F"
    and G: "G = add_literal F l \<or> G = add_literal F (- l)"
  from h have v: "nat \<bar>l\<bar> |\<in>| variables F" "nat \<bar>- l\<bar> |\<in>| variables F"
    by (auto simp: variables_def)
  from h have nu: "unit_clauses F = {||}" by simp
  from G split_branch_loses_variable [OF nu v(1), of rs']
    split_branch_loses_variable [OF nu v(2), of rs']
  have r: "fst (fst (apply_unit G rs')) = True \<and>
         variables (snd (fst (apply_unit G rs'))) |\<subseteq>| variables F |-| {|nat \<bar>l\<bar>|} \<and>
         fcard (variables (snd (fst (apply_unit G rs')))) < fcard (variables F)"
    by auto
  from r show "fst (fst (apply_unit G rs')) = True" by simp
  from r show "nat \<bar>l\<bar> |\<notin>| variables (snd (fst (apply_unit G rs')))" by auto
  from r show "variables (snd (fst (apply_unit G rs'))) |\<subseteq>| variables F" by auto
  from r show "fcard (variables (snd (fst (apply_unit G rs')))) < fcard (variables F)" by simp
qed

theorem dpll_terminates_witness:
  "dpll_depth 3 (CNF [Clause {|1, 2|}, Clause {|1, - 2|}, Clause {|- 1, 2|}, Clause {|- 1, - 2|}]
       None None) [0, 7] = Some (False, []) \<and>
   dpll (CNF [Clause {|1, 2|}, Clause {|1, - 2|}, Clause {|- 1, 2|}, Clause {|- 1, - 2|}]
       None None) [0, 7] = (False, []) \<and>
   unit_clauses (CNF [Clause {|1, 2|}, Clause {|1, - 2|}, Clause {|- 1, 2|}, Clause {|- 1, - 2|}]
       None None) = {||} \<and>
   1 |\<in>| get_literals (CNF [Clause {|1, 2|}, Clause {|1, - 2|}, Clause {|- 1, 2|},
       Clause {|- 1, - 2|}] None None) \<and>
   fcard (variables (snd (fst (apply_unit (add_literal (CNF [Clause {|1, 2|}, Clause {|1, - 2|},
       Clause {|- 1, 2|}, Clause {|- 1, - 2|}] None None) (- 1)) [])))) < 2"
proof -
  let ?F = "CNF [Clause {|1, 2|}, Clause {|1, - 2|}, Clause {|- 1, 2|}, Clause {|- 1, - 2|}] None None"
  have a: "fcard (variables ?F) = 2" by code_simp
  have b: "dpll_depth 3 ?F [0, 7] = Some (False, [])" by code_simp
  have c: "unit_clauses ?F = {||}" by code_simp
  have d: "1 |\<in>| get_literals ?F" by code_simp
  note t = dpll_terminates [of ?F "[0, 7]" 1 "[]"]
  from t have "dpll_depth (Suc (fcard (variables ?F))) ?F [0, 7] = Some (dpll ?F [0, 7])"
    by blast
  with a b have e: "dpll ?F [0, 7] = (False, [])" by simp
  from t c d have "fcard (variables (snd (fst (apply_unit (add_literal ?F (- 1)) []))))
      < fcard (variables ?F)" by blast
  with a b c d e show ?thesis by simp
qed

section \<open>A copy shares no object\<close>

lemma dupe_each_eq:
  "list_all (\<lambda>c. c < length (clause_objs h)) cs \<Longrightarrow>
     dupe_each h cs =
       (h\<lparr>clause_objs := clause_objs h @ map (\<lambda>c. clause_objs h ! c) cs\<rparr>,
        [length (clause_objs h) ..< length (clause_objs h) + length cs])"
proof (induction cs arbitrary: h)
  case Nil
  then show ?case by simp
next
  case (Cons c cs)
  let ?h1 = "h\<lparr>clause_objs := clause_objs h @ [clause_objs h ! c]\<rparr>"
  from Cons.prems have v: "list_all (\<lambda>c. c < length (clause_objs ?h1)) cs"
    by (auto simp: list_all_iff)
  from Cons.prems have m: "map (\<lambda>d. (clause_objs h @ [clause_objs h ! c]) ! d) cs
      = map (\<lambda>d. clause_objs h ! d) cs"
    by (auto simp: list_all_iff nth_append)
  show ?case
    by (simp add: dupe_obj_def new_Clause_def Cons.IH [OF v] m del: upt_Suc)
      (auto simp: upt_conv_Cons Suc_le_eq)
qed

lemma set_of_refs_subset: "set (set_of_refs h cs) \<subseteq> set cs"
  by (induction cs) auto

lemma set_of_refs_contents:
  "set (map (\<lambda>c. clause_objs h ! c) (set_of_refs h cs)) = set (map (\<lambda>c. clause_objs h ! c) cs)"
  by (induction cs) auto

lemma set_of_refs_distinct: "distinct (map (\<lambda>c. clause_objs h ! c) (set_of_refs h cs))"
  by (induction cs) (auto simp: distinct_map_filter)


lemma cnf_of_cong:
  assumes "cnf_objs h1 ! a = cnf_objs h2 ! a"
    and "\<forall>c \<in> set (clause_refs (cnf_objs h1 ! a)). clause_objs h1 ! c = clause_objs h2 ! c"
  shows "cnf_of h1 a = cnf_of h2 a"
proof -
  from assms have e: "map (\<lambda>c. Clause (clause_objs h1 ! c)) (clause_refs (cnf_objs h1 ! a))
      = map (\<lambda>c. Clause (clause_objs h2 ! c)) (clause_refs (cnf_objs h2 ! a))"
    by (auto intro: map_cong)
  show ?thesis unfolding cnf_of_def assms(1) e [unfolded assms(1)] by (rule refl)
qed

lemma add_literal_obj_eq:
  assumes "allocated h F"
  shows "add_literal_obj h F l =
     (let cs = clause_refs (cnf_objs h ! F);
          n = length (clause_objs h);
          h2 = h\<lparr>clause_objs := clause_objs h @ map (\<lambda>c. clause_objs h ! c) cs @ [{|l|}]\<rparr>;
          s = set_of_refs h2 [n ..< Suc (n + length cs)]
      in (h2\<lparr>cnf_objs := cnf_objs h @
              [\<lparr>clause_refs = s,
                obj_num_literals = int (fcard (ffUnion (fset_of_list (map (\<lambda>c. clause_objs h2 ! c) s)))),
                obj_num_clauses = int (length s)\<rparr>]\<rparr>,
          length (cnf_objs h)))"
proof -
  from assms have v: "list_all (\<lambda>c. c < length (clause_objs h)) (clause_refs (cnf_objs h ! F))"
    by (simp add: allocated_def)
  show ?thesis
    by (simp add: add_literal_obj_def dupe_each_eq [OF v] new_Clause_def new_CNF_def Let_def)
qed

lemma fresh_contents:
  "map (\<lambda>c. (xs @ ys) ! c) [length xs ..< length xs + length ys] = ys"
  by (rule nth_equalityI) (auto simp: nth_append)


lemma add_literal_obj_props:
  assumes al: "allocated h F" and r: "add_literal_obj h F l = (h', G)"
  shows "G = length (cnf_objs h)"
    and "cnf_objs h' = cnf_objs h @ [cnf_objs h' ! G]"
    and "clause_objs h' = clause_objs h @
           map (\<lambda>c. clause_objs h ! c) (clause_refs (cnf_objs h ! F)) @ [{|l|}]"
    and "set (clause_refs (cnf_objs h' ! G)) \<subseteq>
           {length (clause_objs h) ..< length (clause_objs h')}"
    and "cnf_of h' G = add_literal (cnf_of h F) l"
proof -
  define cs where "cs = clause_refs (cnf_objs h ! F)"
  define n where "n = length (clause_objs h)"
  define ys where "ys = map (\<lambda>c. clause_objs h ! c) cs @ [{|l|}]"
  define h2 where "h2 = h\<lparr>clause_objs := clause_objs h @ ys\<rparr>"
  define s where "s = set_of_refs h2 [n ..< Suc (n + length cs)]"
  define obj where "obj = \<lparr>clause_refs = s,
      obj_num_literals = int (fcard (ffUnion (fset_of_list (map (\<lambda>c. clause_objs h2 ! c) s)))),
      obj_num_clauses = int (length s)\<rparr>"
  from r add_literal_obj_eq [OF al, of l]
  have h': "h' = h2\<lparr>cnf_objs := cnf_objs h @ [obj]\<rparr>" and G: "G = length (cnf_objs h)"
    by (simp_all add: Let_def cs_def n_def ys_def h2_def s_def obj_def)
  show "G = length (cnf_objs h)" by (rule G)
  have objG: "cnf_objs h' ! G = obj" by (simp add: h' G)
  show "cnf_objs h' = cnf_objs h @ [cnf_objs h' ! G]" unfolding objG by (simp add: h' h2_def)
  show "clause_objs h' = clause_objs h @
           map (\<lambda>c. clause_objs h ! c) (clause_refs (cnf_objs h ! F)) @ [{|l|}]"
    by (simp add: h' h2_def ys_def cs_def)
  have len: "length (clause_objs h') = Suc (n + length cs)"
    by (simp add: h' h2_def ys_def n_def)
  have "set s \<subseteq> set [n ..< Suc (n + length cs)]" unfolding s_def by (rule set_of_refs_subset)
  then show "set (clause_refs (cnf_objs h' ! G)) \<subseteq>
           {length (clause_objs h) ..< length (clause_objs h')}"
    unfolding objG len by (auto simp: obj_def n_def)
  have "map (\<lambda>c. (clause_objs h @ ys) ! c) [length (clause_objs h) ..< length (clause_objs h) + length ys]
          = ys" by (rule fresh_contents)
  then have all: "map (\<lambda>c. clause_objs h2 ! c) [n ..< Suc (n + length cs)] = ys"
    by (simp add: h2_def n_def ys_def)
  have cont: "set (map (\<lambda>c. clause_objs h2 ! c) s) = set ys"
    unfolding s_def set_of_refs_contents all ..
  have dist: "distinct (map (\<lambda>c. clause_objs h2 ! c) s)"
    unfolding s_def by (rule set_of_refs_distinct)
  have ch': "clause_objs h' = clause_objs h2" by (simp add: h')
  let ?new = "finsert (Clause {|l|}) (dupe |`| clauses (cnf_of h F))"
  have new: "fset ?new = Clause ` set ys"
    by (auto simp: cnf_of_def dupe_def ys_def cs_def fset_of_list.rep_eq)
  have c1: "fset_of_list (map (\<lambda>c. Clause (clause_objs h2 ! c)) s) = ?new"
  proof -
    have "set (map (\<lambda>c. Clause (clause_objs h2 ! c)) s)
            = Clause ` set (map (\<lambda>c. clause_objs h2 ! c) s)" by auto
    then have "fset (fset_of_list (map (\<lambda>c. Clause (clause_objs h2 ! c)) s)) = fset ?new"
      unfolding cont new by (simp add: fset_of_list.rep_eq)
    then show ?thesis by (simp only: fset_inject)
  qed
  have c2: "ffUnion (fset_of_list (map (\<lambda>c. clause_objs h2 ! c) s)) = ffUnion (literals |`| ?new)"
  proof -
    have "fset (literals |`| ?new) = literals ` (Clause ` set ys)"
      unfolding fimage.rep_eq new ..
    also have "\<dots> = set ys" by (simp add: image_image)
    finally have "fset (fset_of_list (map (\<lambda>c. clause_objs h2 ! c) s)) = fset (literals |`| ?new)"
      unfolding fset_of_list.rep_eq cont by simp
    then have "fset_of_list (map (\<lambda>c. clause_objs h2 ! c) s) = literals |`| ?new"
      by (simp only: fset_inject)
    then show ?thesis by simp
  qed
  have c3: "length s = fcard ?new"
  proof -
    have "length s = card (set (map (\<lambda>c. clause_objs h2 ! c) s))"
      using distinct_card [OF dist] by simp
    also have "\<dots> = card (Clause ` set ys)" unfolding cont
      by (rule card_image [symmetric]) (simp add: inj_on_def)
    finally show ?thesis unfolding fcard.rep_eq new .
  qed
  show "cnf_of h' G = add_literal (cnf_of h F) l"
    unfolding cnf_of_def [of h' G] objG ch' add_literal_def Let_def get_literals_def
    by (simp only: obj_def cnf_obj.select_convs cnf.select_convs cnf.update_convs c1 c2 c3)
qed

text \<open>
  Claim C6. \<open>add_literal\<close> on the object \<open>F\<close> leaves the formula of \<open>F\<close> as it was
  and returns a new object \<open>G\<close> whose formula is that of \<open>F\<close> with the unit clause
  added, as \<open>add_literal\<close> on values says. \<open>G\<close> and every clause it refers to are
  new objects. So whatever is later written to the objects of \<open>G\<close> or to objects
  made after it (a \<open>remove\<close> on one of its clauses, for one), \<open>F\<close> stands for the
  same formula, from which the second branch is then copied; and whatever is
  written to objects older than the copy, \<open>G\<close> stands for the same formula.
\<close>
theorem add_literal_copies:
  assumes "allocated h F" and "add_literal_obj h F l = (h', G)"
  shows "cnf_of h' F = cnf_of h F \<and>
    cnf_of h' G = add_literal (cnf_of h F) l \<and>
    length (cnf_objs h) \<le> G \<and>
    (\<forall>c \<in> set (clause_refs (cnf_objs h' ! G)). length (clause_objs h) \<le> c) \<and>
    (\<forall>k. (\<forall>a < length (cnf_objs h). cnf_objs k ! a = cnf_objs h' ! a) \<and>
          (\<forall>c < length (clause_objs h). clause_objs k ! c = clause_objs h' ! c) \<longrightarrow>
          cnf_of k F = cnf_of h F) \<and>
    (\<forall>k. cnf_objs k ! G = cnf_objs h' ! G \<and>
          (\<forall>c \<ge> length (clause_objs h). clause_objs k ! c = clause_objs h' ! c) \<longrightarrow>
          cnf_of k G = add_literal (cnf_of h F) l) \<and>
    (\<forall>c \<in> set (clause_refs (cnf_objs h' ! G)). cnf_of (remove_obj h' c x) F = cnf_of h F) \<and>
    (\<forall>c \<in> set (clause_refs (cnf_objs h ! F)).
          cnf_of (remove_obj h' c x) G = add_literal (cnf_of h F) l)"
proof -
  note p = add_literal_obj_props [OF assms]
  from assms(1) have F: "F < length (cnf_objs h)"
    and refs: "\<forall>c \<in> set (clause_refs (cnf_objs h ! F)). c < length (clause_objs h)"
    by (simp_all add: allocated_def list_all_iff)
  have oldF: "cnf_objs h' ! a = cnf_objs h ! a" if "a < length (cnf_objs h)" for a
    using that by (subst p(2)) (simp add: nth_append)
  have oldc: "clause_objs h' ! c = clause_objs h ! c" if "c < length (clause_objs h)" for c
    using that by (simp add: p(3) nth_append)
  have fresh: "\<forall>c \<in> set (clause_refs (cnf_objs h' ! G)). length (clause_objs h) \<le> c"
    using p(4) by auto
  have keep: "cnf_of k F = cnf_of h F"
    if "\<forall>a < length (cnf_objs h). cnf_objs k ! a = cnf_objs h' ! a"
      and "\<forall>c < length (clause_objs h). clause_objs k ! c = clause_objs h' ! c" for k
  proof (rule cnf_of_cong)
    from that(1) F oldF show a: "cnf_objs k ! F = cnf_objs h ! F" by simp
    from that(2) refs oldc
    show "\<forall>c \<in> set (clause_refs (cnf_objs k ! F)). clause_objs k ! c = clause_objs h ! c"
      unfolding a by simp
  qed
  have own: "cnf_of k G = add_literal (cnf_of h F) l"
    if "cnf_objs k ! G = cnf_objs h' ! G"
      and "\<forall>c \<ge> length (clause_objs h). clause_objs k ! c = clause_objs h' ! c" for k
  proof -
    have "cnf_of k G = cnf_of h' G"
    proof (rule cnf_of_cong)
      show "cnf_objs k ! G = cnf_objs h' ! G" by (rule that(1))
      from that(2) fresh
      show "\<forall>c \<in> set (clause_refs (cnf_objs k ! G)). clause_objs k ! c = clause_objs h' ! c"
        unfolding that(1) by simp
    qed
    with p(5) show ?thesis by simp
  qed
  have 1: "cnf_of h' F = cnf_of h F" by (rule keep) simp_all
  have 2: "cnf_of h' G = add_literal (cnf_of h F) l" by (rule p(5))
  have 3: "length (cnf_objs h) \<le> G" by (simp add: p(1))
  have 7: "\<forall>c \<in> set (clause_refs (cnf_objs h' ! G)). cnf_of (remove_obj h' c x) F = cnf_of h F"
  proof
    fix c assume "c \<in> set (clause_refs (cnf_objs h' ! G))"
    with fresh have c: "length (clause_objs h) \<le> c" by simp
    show "cnf_of (remove_obj h' c x) F = cnf_of h F"
      by (rule keep) (use c in \<open>simp_all add: remove_obj_def\<close>)
  qed
  have 8: "\<forall>c \<in> set (clause_refs (cnf_objs h ! F)).
          cnf_of (remove_obj h' c x) G = add_literal (cnf_of h F) l"
  proof
    fix c assume "c \<in> set (clause_refs (cnf_objs h ! F))"
    with refs have c: "c < length (clause_objs h)" by simp
    show "cnf_of (remove_obj h' c x) G = add_literal (cnf_of h F) l"
      by (rule own) (use c in \<open>simp_all add: remove_obj_def\<close>)
  qed
  from keep own have 5: "\<forall>k. (\<forall>a < length (cnf_objs h). cnf_objs k ! a = cnf_objs h' ! a) \<and>
          (\<forall>c < length (clause_objs h). clause_objs k ! c = clause_objs h' ! c) \<longrightarrow>
          cnf_of k F = cnf_of h F"
    and 6: "\<forall>k. cnf_objs k ! G = cnf_objs h' ! G \<and>
          (\<forall>c \<ge> length (clause_objs h). clause_objs k ! c = clause_objs h' ! c) \<longrightarrow>
          cnf_of k G = add_literal (cnf_of h F) l" by blast+
  from 1 2 3 fresh 5 6 7 8 show ?thesis by (intro conjI)
qed

theorem add_literal_copies_witness:
  "allocated \<lparr>clause_objs = [{|1, 2|}, {|- 1|}],
       cnf_objs = [\<lparr>clause_refs = [0, 1], obj_num_literals = 3, obj_num_clauses = 2\<rparr>]\<rparr> 0 \<and>
   add_literal_obj \<lparr>clause_objs = [{|1, 2|}, {|- 1|}],
       cnf_objs = [\<lparr>clause_refs = [0, 1], obj_num_literals = 3, obj_num_clauses = 2\<rparr>]\<rparr> 0 (- 1) =
     (\<lparr>clause_objs = [{|1, 2|}, {|- 1|}, {|1, 2|}, {|- 1|}, {|- 1|}],
       cnf_objs = [\<lparr>clause_refs = [0, 1], obj_num_literals = 3, obj_num_clauses = 2\<rparr>,
                   \<lparr>clause_refs = [2, 3], obj_num_literals = 3, obj_num_clauses = 2\<rparr>]\<rparr>, 1) \<and>
   cnf_of (remove_obj \<lparr>clause_objs = [{|1, 2|}, {|- 1|}, {|1, 2|}, {|- 1|}, {|- 1|}],
       cnf_objs = [\<lparr>clause_refs = [0, 1], obj_num_literals = 3, obj_num_clauses = 2\<rparr>,
                   \<lparr>clause_refs = [2, 3], obj_num_literals = 3, obj_num_clauses = 2\<rparr>]\<rparr> 2 1) 0 =
     \<lparr>clauses = {|Clause {|1, 2|}, Clause {|- 1|}|}, num_literals = 3, num_clauses = 2\<rparr>"
proof -
  let ?h = "\<lparr>clause_objs = [{|1, 2|}, {|- 1|}],
       cnf_objs = [\<lparr>clause_refs = [0, 1], obj_num_literals = 3, obj_num_clauses = 2\<rparr>]\<rparr>"
  let ?h' = "\<lparr>clause_objs = [{|1, 2|}, {|- 1|}, {|1, 2|}, {|- 1|}, {|- 1|}],
       cnf_objs = [\<lparr>clause_refs = [0, 1], obj_num_literals = 3, obj_num_clauses = 2\<rparr>,
                   \<lparr>clause_refs = [2, 3], obj_num_literals = 3, obj_num_clauses = 2\<rparr>]\<rparr>"
  have a: "allocated ?h 0" by code_simp
  have b: "add_literal_obj ?h 0 (- 1) = (?h', 1)" by code_simp
  have c: "cnf_of ?h 0 = \<lparr>clauses = {|Clause {|1, 2|}, Clause {|- 1|}|}, num_literals = 3, num_clauses = 2\<rparr>"
    by code_simp
  have d: "2 \<in> set (clause_refs (cnf_objs ?h' ! 1))" by simp
  from add_literal_copies [OF a b, of 1]
  have "\<forall>c \<in> set (clause_refs (cnf_objs ?h' ! 1)). cnf_of (remove_obj ?h' c 1) 0 = cnf_of ?h 0"
    by blast
  with d have "cnf_of (remove_obj ?h' 2 1) 0 = cnf_of ?h 0" by blast
  with a b c show ?thesis by simp
qed

section \<open>Reading a malformed file\<close>

text \<open>
  Claim C9. The claim fails on the code for a non-integer literal token: the
  file with the lines \<open>p cnf 2 1\<close> and \<open>1 x 2 0\<close> is read without an exception
  and gives the one clause \<open>{1, 2}\<close>, the token \<open>x\<close> dropped; and in the file
  \<open>p cnf 2 2\<close>, \<open>1 2 0\<close>, \<open>x 0\<close> the token \<open>x\<close> is read as the literal 2 that
  came before it, which gives the second clause \<open>{2}\<close>. Only a bad token that is
  the first literal token of the file stops the reader, with an
  \<open>UnboundLocalError\<close>.
\<close>

theorem parse_dimacs_reads_past_bad_token:
  "parse_dimacs [''p cnf 2 1'' @ [CHR 0x0A], ''1 x 2 0'' @ [CHR 0x0A]] =
     Inr \<lparr>clauses = {|Clause {|1, 2|}|}, num_literals = 2, num_clauses = 1\<rparr> \<and>
   parse_dimacs [''p cnf 2 2'' @ [CHR 0x0A], ''1 2 0'' @ [CHR 0x0A], ''x 0'' @ [CHR 0x0A]] =
     Inr \<lparr>clauses = {|Clause {|1, 2|}, Clause {|2|}|}, num_literals = 2, num_clauses = 2\<rparr> \<and>
   parse_dimacs [''p cnf 2 1'' @ [CHR 0x0A], ''x 2 0'' @ [CHR 0x0A]] = Inl UnboundLocalError"
  by code_simp

end
